theory Spec2Isabelle
  imports Main
begin

section \<open>Strings of the report text\<close>

text \<open>
  A report text is a Python \<open>str\<close>. It is modelled as a \<open>string\<close> whose characters are
  the code points below 256 (Latin-1); on those, the classes below are the ones of Python's
  \<open>re\<close> module and of \<open>str.strip\<close>: \<open>\s\<close> is the Unicode white space, \<open>\d\<close> the decimal
  digits, and IGNORECASE folds the ASCII letters only.
\<close>

abbreviation nl :: char where
  "nl \<equiv> CHR 0x0A"

definition is_space :: "char \<Rightarrow> bool" where
  "is_space c = (let n = (of_char c :: nat) in
     (9 \<le> n \<and> n \<le> 13) \<or> (28 \<le> n \<and> n \<le> 32) \<or> n = 133 \<or> n = 160)"

definition is_upper :: "char \<Rightarrow> bool" where
  "is_upper c = (let n = (of_char c :: nat) in 65 \<le> n \<and> n \<le> 90)"

definition is_lower :: "char \<Rightarrow> bool" where
  "is_lower c = (let n = (of_char c :: nat) in 97 \<le> n \<and> n \<le> 122)"

definition is_digit :: "char \<Rightarrow> bool" where
  "is_digit c = (let n = (of_char c :: nat) in 48 \<le> n \<and> n \<le> 57)"

text \<open>
  A literal character \<open>x\<close> of a pattern under IGNORECASE matches itself and, when it is an
  ASCII letter, the same letter in the other case (32 code points away).
\<close>

definition caseless_eq :: "char \<Rightarrow> char \<Rightarrow> bool" where
  "caseless_eq x c =
     (c = x \<or> (is_upper x \<and> (of_char c :: nat) = of_char x + 32)
            \<or> (is_lower x \<and> (of_char c :: nat) + 32 = of_char x))"

text \<open>\<open>s.strip()\<close>: white space removed at both ends.\<close>

definition strip :: "string \<Rightarrow> string" where
  "strip s = rev (dropWhile is_space (rev (dropWhile is_space s)))"

text \<open>\<open>s.split("\n")\<close>: the pieces between newlines; never an empty list.\<close>

fun split_nl :: "string \<Rightarrow> string list" where
  "split_nl [] = [[]]"
| "split_nl (c # cs) =
     (if c = nl then [] # split_nl cs
      else (case split_nl cs of [] \<Rightarrow> [[c]] | l # ls \<Rightarrow> (c # l) # ls))"

text \<open>\<open>str(n)\<close> for a natural number.\<close>

definition digit_char :: "nat \<Rightarrow> char" where
  "digit_char d = char_of (48 + d)"

function str_nat :: "nat \<Rightarrow> string" where
  "str_nat n = (if n < 10 then [digit_char n] else str_nat (n div 10) @ [digit_char (n mod 10)])"
  by pat_completeness auto
termination
  by (relation "measure id") auto

declare str_nat.simps [simp del]

text \<open>
  A string that need not be Latin-1 is the list of its code points. \<open>chr(n)\<close> is such a
  string: one character with code point \<open>n\<close>, and a \<open>ValueError\<close> beyond \<open>0x10FFFF\<close>.
\<close>

datatype py_error = KeyError | ValueError

definition code_points :: "string \<Rightarrow> nat list" where
  "code_points s = map of_char s"

definition py_chr :: "nat \<Rightarrow> py_error + nat list" where
  "py_chr n = (if n \<le> 0x10FFFF then Inr [n] else Inl ValueError)"

text \<open>\<open>s.find(sub)\<close>: the index of the first occurrence, or \<open>-1\<close>.\<close>

fun find_from :: "string \<Rightarrow> string \<Rightarrow> int \<Rightarrow> int" where
  "find_from sub [] i = (if sub = [] then i else - 1)"
| "find_from sub (c # cs) i =
     (if take (length sub) (c # cs) = sub then i else find_from sub cs (i + 1))"

definition py_find :: "string \<Rightarrow> string \<Rightarrow> int" where
  "py_find s sub = find_from sub s 0"

text \<open>\<open>s[i:j]\<close> with Python's treatment of negative and out-of-range bounds.\<close>

definition clamp_index :: "string \<Rightarrow> int \<Rightarrow> nat" where
  "clamp_index s i =
     (let n = int (length s); j = (if i < 0 then i + n else i)
      in nat (max 0 (min n j)))"

definition py_slice :: "string \<Rightarrow> int \<Rightarrow> int \<Rightarrow> string" where
  "py_slice s i j = (let a = clamp_index s i; b = clamp_index s j in take (b - a) (drop a s))"

text \<open>\<open>s.replace(old, "")\<close> for a non-empty \<open>old\<close>: every occurrence removed, left to right.\<close>

fun remove_all :: "string \<Rightarrow> string \<Rightarrow> string" where
  "remove_all old [] = []"
| "remove_all old (c # cs) =
     (if old \<noteq> [] \<and> take (length old) (c # cs) = old
      then remove_all old (drop (length old - 1) cs)
      else c # remove_all old cs)"

section \<open>Regular expressions with backtracking\<close>

text \<open>
  The patterns of the source are written in a small regular-expression language. Its
  repetitions range over character classes only, which is all the source uses.
\<close>

datatype cset =
    AnyChar             \<comment> \<open>\<open>.\<close> under DOTALL\<close>
  | NotNewline          \<comment> \<open>\<open>.\<close> without DOTALL, \<open>[^\n]\<close>\<close>
  | Space               \<comment> \<open>\<open>\s\<close>\<close>
  | NonSpace            \<comment> \<open>\<open>\S\<close>\<close>
  | Digit               \<comment> \<open>\<open>\d\<close>, \<open>[0-9]\<close>\<close>
  | Upper               \<comment> \<open>\<open>[A-Z]\<close>\<close>
  | Letter              \<comment> \<open>\<open>[A-Z]\<close> under IGNORECASE\<close>
  | LetterBlank         \<comment> \<open>\<open>[A-Z ]\<close> under IGNORECASE\<close>
  | OneOf string        \<comment> \<open>a literal character, or a class of listed characters\<close>
  | IChar char          \<comment> \<open>a literal character under IGNORECASE\<close>

fun in_cset :: "cset \<Rightarrow> char \<Rightarrow> bool" where
  "in_cset AnyChar c = True"
| "in_cset NotNewline c = (c \<noteq> nl)"
| "in_cset Space c = is_space c"
| "in_cset NonSpace c = (\<not> is_space c)"
| "in_cset Digit c = is_digit c"
| "in_cset Upper c = is_upper c"
| "in_cset Letter c = (is_upper c \<or> is_lower c)"
| "in_cset LetterBlank c = (is_upper c \<or> is_lower c \<or> c = CHR '' '')"
| "in_cset (OneOf cs) c = (c \<in> set cs)"
| "in_cset (IChar x) c = caseless_eq x c"

datatype rx =
    Eps
  | Atom cset
  | Many cset nat       \<comment> \<open>greedy repetition, at least \<open>n\<close> times: \<open>c*\<close>, \<open>c+\<close>\<close>
  | Few cset nat        \<comment> \<open>lazy repetition, at least \<open>n\<close> times: \<open>c*?\<close>, \<open>c+?\<close>\<close>
  | Seq rx rx
  | Alt rx rx
  | Grp nat rx          \<comment> \<open>capturing group\<close>
  | Ahead rx            \<comment> \<open>\<open>(?=...)\<close>\<close>
  | EndZ                \<comment> \<open>\<open>\Z\<close>\<close>
  | Dollar              \<comment> \<open>\<open>$\<close>\<close>
  | DollarM             \<comment> \<open>\<open>$\<close> under MULTILINE\<close>
  | Caret               \<comment> \<open>\<open>^\<close>\<close>
  | CaretM              \<comment> \<open>\<open>^\<close> under MULTILINE\<close>

text \<open>
  A matcher state: the character before the current position (none at the start of the
  string), the text from the current position on, and the groups captured so far.
\<close>

datatype mstate = MState (before: "char option") (rest: string) (caps: "(nat \<times> string) list")

text \<open>The ways a repetition can stop, in the order in which backtracking tries them.\<close>

fun many_states :: "cset \<Rightarrow> nat \<Rightarrow> char option \<Rightarrow> string \<Rightarrow> (char option \<times> string) list" where
  "many_states cs n p [] = (if n = 0 then [(p, [])] else [])"
| "many_states cs n p (c # r) =
     (if in_cset cs c then many_states cs (n - 1) (Some c) r else [])
     @ (if n = 0 then [(p, c # r)] else [])"

fun few_states :: "cset \<Rightarrow> nat \<Rightarrow> char option \<Rightarrow> string \<Rightarrow> (char option \<times> string) list" where
  "few_states cs n p [] = (if n = 0 then [(p, [])] else [])"
| "few_states cs n p (c # r) =
     (if n = 0 then [(p, c # r)] else [])
     @ (if in_cset cs c then few_states cs (n - 1) (Some c) r else [])"

definition consumed :: "mstate \<Rightarrow> mstate \<Rightarrow> string" where
  "consumed st st' = take (length (rest st) - length (rest st')) (rest st)"

text \<open>
  All matches of a pattern from a state, in the priority order of a backtracking matcher:
  the first element is the match that \<open>re\<close> reports.
\<close>

fun rmatch :: "rx \<Rightarrow> mstate \<Rightarrow> mstate list" where
  "rmatch Eps st = [st]"
| "rmatch (Atom cs) st =
     (case rest st of
        [] \<Rightarrow> []
      | c # r \<Rightarrow> if in_cset cs c then [MState (Some c) r (caps st)] else [])"
| "rmatch (Many cs n) st =
     map (\<lambda>(p, r). MState p r (caps st)) (many_states cs n (before st) (rest st))"
| "rmatch (Few cs n) st =
     map (\<lambda>(p, r). MState p r (caps st)) (few_states cs n (before st) (rest st))"
| "rmatch (Seq a b) st = concat (map (rmatch b) (rmatch a st))"
| "rmatch (Alt a b) st = rmatch a st @ rmatch b st"
| "rmatch (Grp n a) st =
     map (\<lambda>st'. MState (before st') (rest st') ((n, consumed st st') # caps st')) (rmatch a st)"
| "rmatch (Ahead a) st = (if rmatch a st = [] then [] else [st])"
| "rmatch EndZ st = (if rest st = [] then [st] else [])"
| "rmatch Dollar st = (if rest st = [] \<or> rest st = [nl] then [st] else [])"
| "rmatch DollarM st = (case rest st of [] \<Rightarrow> [st] | c # _ \<Rightarrow> if c = nl then [st] else [])"
| "rmatch Caret st = (if before st = None then [st] else [])"
| "rmatch CaretM st = (if before st = None \<or> before st = Some nl then [st] else [])"

text \<open>\<open>m.group(n)\<close>; a group that took no part in the match reads as the empty string.\<close>

definition group :: "nat \<Rightarrow> mstate \<Rightarrow> string" where
  "group n m = (case map_of (caps m) n of None \<Rightarrow> [] | Some g \<Rightarrow> g)"

text \<open>\<open>re.match\<close>: a match at the start of the string.\<close>

definition re_match :: "rx \<Rightarrow> string \<Rightarrow> mstate option" where
  "re_match r s = (case rmatch r (MState None s []) of [] \<Rightarrow> None | m # _ \<Rightarrow> Some m)"

text \<open>\<open>re.search\<close> from a position: the first match at the leftmost position that has one.\<close>

fun search_from :: "rx \<Rightarrow> char option \<Rightarrow> string \<Rightarrow> mstate option" where
  "search_from r p [] = (case rmatch r (MState p [] []) of [] \<Rightarrow> None | m # _ \<Rightarrow> Some m)"
| "search_from r p (c # cs) =
     (case rmatch r (MState p (c # cs) []) of
        [] \<Rightarrow> search_from r (Some c) cs
      | m # _ \<Rightarrow> Some m)"

definition re_search :: "rx \<Rightarrow> string \<Rightarrow> mstate option" where
  "re_search r s = search_from r None s"

text \<open>
  \<open>re.findall\<close>: the successive matches, each search starting where the previous match
  ended (one character further after an empty match).
\<close>

function findall_from :: "rx \<Rightarrow> char option \<Rightarrow> string \<Rightarrow> mstate list" where
  "findall_from r p s =
     (case search_from r p s of
        None \<Rightarrow> []
      | Some m \<Rightarrow>
          m # (if length (rest m) < length s then findall_from r (before m) (rest m)
               else (case s of [] \<Rightarrow> [] | c # cs \<Rightarrow> findall_from r (Some c) cs)))"
  by pat_completeness auto
termination
  by (relation "measure (\<lambda>(r, p, s). length s)") auto

declare findall_from.simps [simp del]

definition re_findall :: "rx \<Rightarrow> string \<Rightarrow> mstate list" where
  "re_findall r s = findall_from r None s"

text \<open>A literal, with and without IGNORECASE.\<close>

fun lit :: "string \<Rightarrow> rx" where
  "lit [] = Eps"
| "lit (c # cs) = Seq (Atom (OneOf [c])) (lit cs)"

fun lit_i :: "string \<Rightarrow> rx" where
  "lit_i [] = Eps"
| "lit_i (c # cs) = Seq (Atom (IChar c)) (lit_i cs)"

definition opt :: "rx \<Rightarrow> rx" where
  "opt a = Alt a Eps"

fun seqs :: "rx list \<Rightarrow> rx" where
  "seqs [] = Eps"
| "seqs (a # as) = Seq a (seqs as)"

section \<open>The patterns of the source\<close>

text \<open>\<^verbatim>\<open>Accession No:\s*(\S+)\<close>, IGNORECASE.\<close>

definition accession_rx :: rx where
  "accession_rx = seqs [lit_i ''Accession No:'', Many Space 0, Grp 1 (Many NonSpace 1)]"

text \<open>\<^verbatim>\<open>SPECIMEN SUBMITTED:\s*(.+?)(?:\n\n|\Z)\<close>, IGNORECASE and DOTALL.\<close>

definition specimen_section_rx :: rx where
  "specimen_section_rx =
     seqs [lit_i ''SPECIMEN SUBMITTED:'', Many Space 0, Grp 1 (Few AnyChar 1),
           Alt (lit [nl, nl]) EndZ]"

text \<open>\<^verbatim>\<open>([A-Z])\.\s*([^\n]+)\<close>, no flags.\<close>

definition lettered_specimen_rx :: rx where
  "lettered_specimen_rx =
     seqs [Grp 1 (Atom Upper), Atom (OneOf ''.''), Many Space 0, Grp 2 (Many NotNewline 1)]"

text \<open>\<^verbatim>\<open>SPECIMEN SUBMITTED:\s*(.+?)(?=\n\n|DIAGNOSIS:)\<close>, IGNORECASE and DOTALL.\<close>

definition mapping_section_rx :: rx where
  "mapping_section_rx =
     seqs [lit_i ''SPECIMEN SUBMITTED:'', Many Space 0, Grp 1 (Few AnyChar 1),
           Ahead (Alt (lit [nl, nl]) (lit_i ''DIAGNOSIS:''))]"

text \<open>\<^verbatim>\<open>([A-Z])[\.\):]?\s*(.+)\<close>, no flags.\<close>

definition mapping_specimen_rx :: rx where
  "mapping_specimen_rx =
     seqs [Grp 1 (Atom Upper), opt (Atom (OneOf ''.):'')), Many Space 0,
           Grp 2 (Many NotNewline 1)]"

text \<open>\<^verbatim>\<open><HEADER>:\s*(.+?)(?=\n[A-Z ]+:|$)\<close>, IGNORECASE and DOTALL, for the headers
  \<^verbatim>\<open>CLINICAL IMPRESSION\<close> and \<^verbatim>\<open>MICROSCOPIC DESCRIPTION\<close>.\<close>

definition next_header_or_end :: rx where
  "next_header_or_end =
     Alt (seqs [Atom (OneOf [nl]), Many LetterBlank 1, Atom (OneOf '':'')]) Dollar"

definition headed_section_rx :: "string \<Rightarrow> rx" where
  "headed_section_rx header =
     seqs [lit_i header, Many Space 0, Grp 1 (Few AnyChar 1), Ahead next_header_or_end]"

definition clinical_section_rx :: rx where
  "clinical_section_rx = headed_section_rx ''CLINICAL IMPRESSION:''"

definition micro_section_rx :: rx where
  "micro_section_rx = headed_section_rx ''MICROSCOPIC DESCRIPTION:''"

text \<open>\<^verbatim>\<open>([A-Z]\)|[A-Z]:|#\d+-|Lesion [A-Z])\<close>, IGNORECASE.\<close>

definition identifier_token_rx :: rx where
  "identifier_token_rx =
     Grp 1 (Alt (Seq (Atom Letter) (Atom (OneOf '')'')))
           (Alt (Seq (Atom Letter) (Atom (OneOf '':'')))
           (Alt (seqs [Atom (OneOf ''#''), Many Digit 1, Atom (OneOf ''-'')])
                (Seq (lit_i ''Lesion '') (Atom Letter)))))"

text \<open>\<^verbatim>\<open>^([A-Z][\.\):])\s*(.*?)\s*-\s*(.+)$\<close>, IGNORECASE, DOTALL and MULTILINE.\<close>

definition micro_row_rx :: rx where
  "micro_row_rx =
     seqs [CaretM, Grp 1 (Seq (Atom Letter) (Atom (OneOf ''.):''))), Many Space 0,
           Grp 2 (Few AnyChar 0), Many Space 0, Atom (OneOf ''-''), Many Space 0,
           Grp 3 (Many AnyChar 1), DollarM]"

text \<open>\<^verbatim>\<open>([A-Z])[\.\):]?\s*(.+?)\n\s*--\s*(.+?)(?=\n[A-Z][\.\):]|\n\n|$)\<close>, IGNORECASE and
  DOTALL.\<close>

definition diagnosis_rx :: rx where
  "diagnosis_rx =
     seqs [Grp 1 (Atom Letter), opt (Atom (OneOf ''.):'')), Many Space 0,
           Grp 2 (Few AnyChar 1), Atom (OneOf [nl]), Many Space 0, lit ''--'', Many Space 0,
           Grp 3 (Few AnyChar 1),
           Ahead (Alt (seqs [Atom (OneOf [nl]), Atom Letter, Atom (OneOf ''.):'')])
                 (Alt (lit [nl, nl]) Dollar))]"

text \<open>\<^verbatim>\<open>^[A-Z][\)\.:]|#[0-9]+$\<close>, no flags.\<close>

definition valid_identifier_rx :: rx where
  "valid_identifier_rx =
     Alt (seqs [Caret, Atom Upper, Atom (OneOf '').:'')])
         (seqs [Atom (OneOf ''#''), Many Digit 1, Dollar])"

section \<open>The table of specimens\<close>

text \<open>
  A specimen identifier is either a letter read from the text or a character made by
  \<open>chr\<close>, which may lie outside Latin-1: it is kept as a list of code points, and a string
  of the text is compared with it through \<open>code_points\<close>.
\<close>

record specimen =
  accession_no :: "string option"
  specimen_identifier :: "nat list"
  specimen_description :: string

record row = specimen +
  diagnosis :: string
  microscopic_description :: string
  clinical_impression :: string

text \<open>
  The loop over \<open>enumerate(specimens, start=1)\<close>: one specimen per line, identified by
  \<open>chr(64 + index)\<close>. An error of \<open>chr\<close> ends the loop and the function.
\<close>

fun numbered_specimens ::
  "string option \<Rightarrow> nat \<Rightarrow> string list \<Rightarrow> py_error + specimen list" where
  "numbered_specimens acc index [] = Inr []"
| "numbered_specimens acc index (specimen_desc # ls) =
     (case py_chr (64 + index) of
        Inl e \<Rightarrow> Inl e
      | Inr specimen_id \<Rightarrow>
          (case numbered_specimens acc (index + 1) ls of
             Inl e \<Rightarrow> Inl e
           | Inr specimens \<Rightarrow>
               Inr (\<lparr>accession_no = acc, specimen_identifier = specimen_id,
                     specimen_description = strip specimen_desc\<rparr> # specimens)))"

definition lettered_specimen :: "string option \<Rightarrow> mstate \<Rightarrow> specimen" where
  "lettered_specimen acc m =
     \<lparr>accession_no = acc, specimen_identifier = code_points (group 1 m),
      specimen_description = strip (group 2 m)\<rparr>"

definition accession_of :: "string \<Rightarrow> string option" where
  "accession_of text =
     (case re_search accession_rx text of None \<Rightarrow> None | Some m \<Rightarrow> Some (strip (group 1 m)))"

text \<open>The stripped body of the SPECIMEN SUBMITTED section, if the pattern finds one.\<close>

definition specimen_section :: "string \<Rightarrow> string option" where
  "specimen_section text =
     (case re_search specimen_section_rx text of
        None \<Rightarrow> None
      | Some m \<Rightarrow> Some (strip (group 1 m)))"

text \<open>\<open>extract_accession_and_specimens_df\<close>: the rows of the data frame it returns.\<close>

definition extract_accession_and_specimens_df :: "string \<Rightarrow> py_error + specimen list" where
  "extract_accession_and_specimens_df text =
     (let accession_no = accession_of text in
      case specimen_section text of
        None \<Rightarrow> Inr []
      | Some body \<Rightarrow>
          (let specimens_with_identifiers = re_findall lettered_specimen_rx body in
           if specimens_with_identifiers \<noteq> []
           then Inr (map (lettered_specimen accession_no) specimens_with_identifiers)
           else numbered_specimens accession_no 1 (split_nl body)))"

text \<open>\<open>remove_text_after_newline\<close>, on a string cell.\<close>

definition remove_text_after_newline :: "string \<Rightarrow> string" where
  "remove_text_after_newline cell_text = strip (hd (split_nl cell_text))"

section \<open>Dictionaries in insertion order\<close>

text \<open>
  A Python \<open>dict\<close> keeps its keys in the order of their first insertion; assigning to a
  key that is present changes the value in place.
\<close>

type_synonym dict = "(string \<times> string) list"

fun dict_set :: "string \<Rightarrow> string \<Rightarrow> dict \<Rightarrow> dict" where
  "dict_set k v [] = [(k, v)]"
| "dict_set k v ((k', v') # d) = (if k = k' then (k, v) # d else (k', v') # dict_set k v d)"

text \<open>\<open>d[k] += v\<close>, which raises \<open>KeyError\<close> when \<open>k\<close> is not a key.\<close>

definition dict_append :: "string \<Rightarrow> string \<Rightarrow> dict \<Rightarrow> py_error + dict" where
  "dict_append k v d =
     (case map_of d k of None \<Rightarrow> Inl KeyError | Some old \<Rightarrow> Inr (dict_set k (old @ v) d))"

section \<open>Clinical impression\<close>

text \<open>
  Step 1 of \<open>extract_clinical_impression\<close>: the loop over
  \<open>enumerate(specimens, start=1)\<close> that fills \<open>specimen_mapping\<close>.
\<close>

fun add_mapping :: "nat \<Rightarrow> mstate list \<Rightarrow> dict \<Rightarrow> dict" where
  "add_mapping idx [] d = d"
| "add_mapping idx (m # ms) d =
     add_mapping (idx + 1) ms
       (dict_set (strip (group 1 m)) (strip (group 1 m))
          (dict_set (str_nat idx) (strip (group 1 m)) d))"

definition specimen_mapping :: "string \<Rightarrow> dict" where
  "specimen_mapping text =
     (case re_search mapping_section_rx text of
        None \<Rightarrow> []
      | Some sec \<Rightarrow> add_mapping 1 (re_findall mapping_specimen_rx (group 1 sec)) [])"

text \<open>\<open>{specimen: "" for specimen in specimen_mapping.values()}\<close>\<close>

definition initial_impressions :: "dict \<Rightarrow> dict" where
  "initial_impressions mapping = fold (\<lambda>specimen d. dict_set specimen [] d) (map snd mapping) []"

text \<open>\<open>re.sub(r"[\)\-:#]", "", identifier).replace("Lesion ", "").strip()\<close>\<close>

definition clean_identifier :: "string \<Rightarrow> string" where
  "clean_identifier identifier =
     strip (remove_all ''Lesion '' (filter (\<lambda>c. c \<notin> set '')-:#'') identifier))"

text \<open>
  Step 4, one round of the loop over \<open>enumerate(identifiers)\<close>: the text attributed to the
  token, from the first occurrence of the token to the first occurrence of the next one.
\<close>

definition impression_text :: "string \<Rightarrow> string \<Rightarrow> string list \<Rightarrow> string" where
  "impression_text body identifier following =
     (let start_pos = py_find body identifier;
          end_pos = (case following of [] \<Rightarrow> int (length body) | nxt # _ \<Rightarrow> py_find body nxt)
      in strip (py_slice body (start_pos + int (length identifier)) end_pos))"

fun impression_loop :: "dict \<Rightarrow> string \<Rightarrow> string list \<Rightarrow> dict \<Rightarrow> py_error + dict" where
  "impression_loop mapping body [] impressions = Inr impressions"
| "impression_loop mapping body (identifier # following) impressions =
     (case map_of mapping (clean_identifier identifier) of
        None \<Rightarrow> impression_loop mapping body following impressions
      | Some specimen \<Rightarrow>
          (case dict_append specimen
                  (strip (impression_text body identifier following) @ '' '') impressions of
             Inl e \<Rightarrow> Inl e
           | Inr impressions' \<Rightarrow> impression_loop mapping body following impressions'))"

text \<open>The stripped body of a section located by \<open>headed_section_rx\<close>.\<close>

definition clinical_section :: "string \<Rightarrow> string option" where
  "clinical_section text =
     (case re_search clinical_section_rx text of
        None \<Rightarrow> None
      | Some m \<Rightarrow> Some (strip (group 1 m)))"

definition identifier_tokens :: "string \<Rightarrow> string list" where
  "identifier_tokens body = map (group 1) (re_findall identifier_token_rx body)"

definition extract_clinical_impression :: "string \<Rightarrow> py_error + dict" where
  "extract_clinical_impression text =
     (let mapping = specimen_mapping text;
          impressions = initial_impressions mapping
      in case (case clinical_section text of
                 None \<Rightarrow> Inr impressions
               | Some body \<Rightarrow>
                   (let identifiers = identifier_tokens body in
                    if identifiers \<noteq> []
                    then impression_loop mapping body identifiers impressions
                    else Inr (map (\<lambda>(specimen, _). (specimen, body)) impressions))) of
           Inl e \<Rightarrow> Inl e
         | Inr impressions' \<Rightarrow> Inr (map (\<lambda>(k, v). (k, strip v)) impressions'))"

section \<open>The data frame of \<open>extract_specimen_details\<close>\<close>

text \<open>
  \<open>pd.DataFrame(specimen_data)\<close> of an empty list has no columns, and the three narrative
  columns are added to it afterwards: the column \<open>Specimen Identifier\<close> exists exactly when
  there is a row, and reading it otherwise raises \<open>KeyError\<close>.
\<close>

definition identifier_column :: "row list \<Rightarrow> py_error + nat list list" where
  "identifier_column rows =
     (if rows = [] then Inl KeyError else Inr (map specimen_identifier rows))"

text \<open>\<open>df.loc[df["Specimen Identifier"] == specimen_id, column] = v\<close>\<close>

definition loc_assign ::
  "(string \<Rightarrow> row \<Rightarrow> row) \<Rightarrow> nat list \<Rightarrow> string \<Rightarrow> row list \<Rightarrow> py_error + row list" where
  "loc_assign column specimen_id v rows =
     (case identifier_column rows of
        Inl e \<Rightarrow> Inl e
      | Inr ids \<Rightarrow> Inr (map (\<lambda>r. if specimen_identifier r = specimen_id then column v r else r) rows))"

definition set_diagnosis :: "string \<Rightarrow> row \<Rightarrow> row" where
  "set_diagnosis v r = r\<lparr>diagnosis := v\<rparr>"

definition set_microscopic :: "string \<Rightarrow> row \<Rightarrow> row" where
  "set_microscopic v r = r\<lparr>microscopic_description := v\<rparr>"

definition set_clinical :: "string \<Rightarrow> row \<Rightarrow> row" where
  "set_clinical v r = r\<lparr>clinical_impression := v\<rparr>"

text \<open>A loop of assignments, each to the rows of one identifier; it stops at the first error.\<close>

fun assign_each ::
  "(string \<Rightarrow> row \<Rightarrow> row) \<Rightarrow> (nat list \<times> string) list \<Rightarrow> row list
   \<Rightarrow> py_error + row list" where
  "assign_each column [] rows = Inr rows"
| "assign_each column ((specimen_id, v) # spans) rows =
     (case loc_assign column specimen_id v rows of
        Inl e \<Rightarrow> Inl e
      | Inr rows' \<Rightarrow> assign_each column spans rows')"

subsection \<open>Diagnosis\<close>

text \<open>\<open>match[0]\<close>, as an identifier, and \<open>match[2].strip()\<close> of each match.\<close>

definition diagnosis_matches :: "string \<Rightarrow> (nat list \<times> string) list" where
  "diagnosis_matches text =
     map (\<lambda>m. (code_points (group 1 m), strip (group 3 m))) (re_findall diagnosis_rx text)"

subsection \<open>Microscopic description\<close>

definition micro_section :: "string \<Rightarrow> string option" where
  "micro_section text =
     (case re_search micro_section_rx text of
        None \<Rightarrow> None
      | Some m \<Rightarrow> Some (strip (group 1 m)))"

text \<open>\<open>match[0][0]\<close>, as an identifier, and \<open>match[2].strip()\<close> of each match of the row
  pattern.\<close>

definition micro_desc_matches :: "string \<Rightarrow> (nat list \<times> string) list" where
  "micro_desc_matches micro_desc_text =
     map (\<lambda>m. (code_points (take 1 (group 1 m)), strip (group 3 m)))
       (re_findall micro_row_rx micro_desc_text)"

definition add_microscopic_description :: "string \<Rightarrow> row list \<Rightarrow> py_error + row list" where
  "add_microscopic_description text specimen_data =
     (case micro_section text of
        None \<Rightarrow> Inr specimen_data
      | Some micro_desc_text \<Rightarrow>
          (let matches = micro_desc_matches micro_desc_text in
           if matches \<noteq> [] then assign_each set_microscopic matches specimen_data
           else (case identifier_column specimen_data of
                   Inl e \<Rightarrow> Inl e
                 | Inr ids \<Rightarrow>
                     assign_each set_microscopic (map (\<lambda>specimen. (specimen, micro_desc_text)) ids)
                       specimen_data)))"

subsection \<open>The pipeline for one report\<close>

text \<open>
  The loop over \<open>clinical_impressions.items()\<close>: an identifier that the pattern of valid
  identifiers does not match at its start has its text written to every row.
\<close>

fun apply_impressions :: "dict \<Rightarrow> row list \<Rightarrow> py_error + row list" where
  "apply_impressions [] rows = Inr rows"
| "apply_impressions ((specimen_id, text) # items) rows =
     (if re_match valid_identifier_rx specimen_id = None
      then apply_impressions items (map (set_clinical text) rows)
      else (case loc_assign set_clinical (code_points specimen_id) text rows of
              Inl e \<Rightarrow> Inl e
            | Inr rows' \<Rightarrow> apply_impressions items rows'))"

definition initial_row :: "specimen \<Rightarrow> row" where
  "initial_row s =
     \<lparr>accession_no = accession_no s, specimen_identifier = specimen_identifier s,
      specimen_description = specimen_description s,
      diagnosis = [], microscopic_description = [], clinical_impression = []\<rparr>"

definition clean_row :: "row \<Rightarrow> row" where
  "clean_row r =
     r\<lparr>diagnosis := remove_text_after_newline (diagnosis r),
       microscopic_description := remove_text_after_newline (microscopic_description r),
       clinical_impression := remove_text_after_newline (clinical_impression r)\<rparr>"

definition extract_specimen_details :: "string \<Rightarrow> py_error + row list" where
  "extract_specimen_details text =
     (case extract_accession_and_specimens_df text of
        Inl e \<Rightarrow> Inl e
      | Inr specimens \<Rightarrow>
          (case assign_each set_diagnosis (diagnosis_matches text) (map initial_row specimens) of
             Inl e \<Rightarrow> Inl e
           | Inr with_diagnosis \<Rightarrow>
               (case add_microscopic_description text with_diagnosis of
                  Inl e \<Rightarrow> Inl e
                | Inr with_micro \<Rightarrow>
                    (case extract_clinical_impression text of
                       Inl e \<Rightarrow> Inl e
                     | Inr clinical_impressions \<Rightarrow>
                         (case apply_impressions clinical_impressions with_micro of
                            Inl e \<Rightarrow> Inl e
                          | Inr with_clinical \<Rightarrow> Inr (map clean_row with_clinical))))))"

section \<open>A first-match evaluator\<close>

text \<open>
  \<open>rmatch\<close> lists every match; \<open>re\<close> only ever reports the first. The function below
  computes that first match alone, by backtracking over a stack of patterns still to be
  matched. It is proved equal to the head of \<open>rmatch\<close> and serves to evaluate the patterns
  on concrete texts.
\<close>

datatype instr = Run rx | Close nat string

fun rx_weight :: "rx \<Rightarrow> nat" where
  "rx_weight (Seq a b) = rx_weight a + rx_weight b + 1"
| "rx_weight (Alt a b) = rx_weight a + rx_weight b + 1"
| "rx_weight (Grp n a) = rx_weight a + 2"
| "rx_weight (Ahead a) = rx_weight a + 1"
| "rx_weight _ = 1"

fun instr_weight :: "instr \<Rightarrow> nat" where
  "instr_weight (Run r) = rx_weight r"
| "instr_weight (Close n r0) = 1"

definition close_group :: "nat \<Rightarrow> string \<Rightarrow> mstate \<Rightarrow> mstate" where
  "close_group n r0 st =
     MState (before st) (rest st) ((n, take (length r0 - length (rest st)) r0) # caps st)"

function first_match :: "instr list \<Rightarrow> mstate \<Rightarrow> mstate option" where
  "first_match [] st = Some st"
| "first_match (Close n r0 # is) st = first_match is (close_group n r0 st)"
| "first_match (Run Eps # is) st = first_match is st"
| "first_match (Run (Atom cs) # is) st =
     (case rest st of
        [] \<Rightarrow> None
      | c # r \<Rightarrow> if in_cset cs c then first_match is (MState (Some c) r (caps st)) else None)"
| "first_match (Run (Many cs n) # is) st =
     (case rest st of
        [] \<Rightarrow> if n = 0 then first_match is st else None
      | c # r \<Rightarrow>
          (case (if in_cset cs c
                 then first_match (Run (Many cs (n - 1)) # is) (MState (Some c) r (caps st))
                 else None) of
             Some m \<Rightarrow> Some m
           | None \<Rightarrow> if n = 0 then first_match is st else None))"
| "first_match (Run (Few cs n) # is) st =
     (case (if n = 0 then first_match is st else None) of
        Some m \<Rightarrow> Some m
      | None \<Rightarrow>
          (case rest st of
             [] \<Rightarrow> None
           | c # r \<Rightarrow>
               if in_cset cs c
               then first_match (Run (Few cs (n - 1)) # is) (MState (Some c) r (caps st))
               else None))"
| "first_match (Run (Seq a b) # is) st = first_match (Run a # Run b # is) st"
| "first_match (Run (Alt a b) # is) st =
     (case first_match (Run a # is) st of
        Some m \<Rightarrow> Some m
      | None \<Rightarrow> first_match (Run b # is) st)"
| "first_match (Run (Grp n a) # is) st = first_match (Run a # Close n (rest st) # is) st"
| "first_match (Run (Ahead a) # is) st =
     (case first_match [Run a] st of None \<Rightarrow> None | Some _ \<Rightarrow> first_match is st)"
| "first_match (Run EndZ # is) st = (if rest st = [] then first_match is st else None)"
| "first_match (Run Dollar # is) st =
     (if rest st = [] \<or> rest st = [nl] then first_match is st else None)"
| "first_match (Run DollarM # is) st =
     (case rest st of [] \<Rightarrow> first_match is st | c # _ \<Rightarrow> if c = nl then first_match is st else None)"
| "first_match (Run Caret # is) st = (if before st = None then first_match is st else None)"
| "first_match (Run CaretM # is) st =
     (if before st = None \<or> before st = Some nl then first_match is st else None)"
  by pat_completeness auto
termination
  by (relation "measures [\<lambda>(is, st). sum_list (map instr_weight is), \<lambda>(is, st). length (rest st)]")
     auto

declare first_match.simps [simp del]



fun run_all :: "instr list \<Rightarrow> mstate \<Rightarrow> mstate list" where
  "run_all [] st = [st]"
| "run_all (Run r # is) st = concat (map (run_all is) (rmatch r st))"
| "run_all (Close n r0 # is) st = run_all is (close_group n r0 st)"

definition first_of :: "'a list \<Rightarrow> 'a option" where
  "first_of xs = (case xs of [] \<Rightarrow> None | x # _ \<Rightarrow> Some x)"

text \<open>The part of a row that comes from the specimen list.\<close>

definition specimen_of :: "row \<Rightarrow> specimen" where
  "specimen_of r =
     \<lparr>accession_no = accession_no r, specimen_identifier = specimen_identifier r,
      specimen_description = specimen_description r\<rparr>"

text \<open>
  The letter by which an identifier token of the clinical impression names a specimen: the
  first character of the two-character forms \<open>A)\<close> and \<open>A:\<close>, the last one of
  \<open>Lesion A\<close>.
\<close>

definition token_letter :: "string \<Rightarrow> char" where
  "token_letter tok = (if length tok = 2 then hd tok else last tok)"

section \<open>Spans\<close>




section \<open>Reports used as examples\<close>

text \<open>Scenario 4 of the specification: two lettered specimens and a tagged impression.\<close>

definition scenario4 :: string where
  "scenario4 =
     ''SPECIMEN SUBMITTED: A. a\<newline>B. b\<newline>\<newline>CLINICAL IMPRESSION: A) Benign. B) Malignant.''"








definition letter_prefixed :: "string \<Rightarrow> bool" where
  "letter_prefixed line =
     (case line of c # d # _ \<Rightarrow> is_upper c \<and> d = CHR ''.'' | _ \<Rightarrow> False)"

definition letter_prefixed_lines :: "string \<Rightarrow> string list" where
  "letter_prefixed_lines body = filter letter_prefixed (split_nl body)"


text \<open>A letter and a period in the middle of the only line.\<close>

definition inline_letter :: string where
  "inline_letter = ''SPECIMEN SUBMITTED: skin A. left''"

text \<open>A line that begins with a letter and a period, and ends there.\<close>

definition bare_letter :: string where
  "bare_letter = ''SPECIMEN SUBMITTED: A.''"

section \<open>The evaluator agrees with the matcher\<close>

lemma first_of_Nil: "first_of [] = None"
  by (simp add: first_of_def)

lemma first_of_Cons: "first_of (x # xs) = Some x"
  by (simp add: first_of_def)

lemma first_of_append:
  "first_of (xs @ ys) = (case first_of xs of Some m \<Rightarrow> Some m | None \<Rightarrow> first_of ys)"
  by (cases xs) (simp_all add: first_of_def)

lemma first_of_None: "first_of xs = None \<longleftrightarrow> xs = []"
  by (cases xs) (simp_all add: first_of_def)


lemma concat_map_concat:
  "concat (map f (concat xss)) = concat (map (\<lambda>xs. concat (map f xs)) xss)"
  by (induction xss) simp_all

lemma concat_map_single: "concat (map (\<lambda>x. [x]) xs) = xs"
  by (induction xs) simp_all

lemma run_all_Run_fun: "run_all (Run r # is) = (\<lambda>st. concat (map (run_all is) (rmatch r st)))"
  by (rule ext) simp

lemma run_all_Close_fun: "run_all (Close n r0 # is) = (\<lambda>st. run_all is (close_group n r0 st))"
  by (rule ext) simp

lemma run_all_Nil_fun: "run_all [] = (\<lambda>st. [st])"
  by (rule ext) simp

lemma run_all_Seq: "run_all (Run (Seq a b) # is) st = run_all (Run a # Run b # is) st"
  by (simp add: concat_map_concat comp_def run_all_Run_fun [of b])

lemma run_all_Alt:
  "run_all (Run (Alt a b) # is) st = run_all (Run a # is) st @ run_all (Run b # is) st"
  by simp

lemma run_all_Grp:
  "run_all (Run (Grp n a) # is) st = run_all (Run a # Close n (rest st) # is) st"
  by (simp add: comp_def close_group_def consumed_def run_all_Close_fun)

lemma run_all_single: "run_all [Run a] st = rmatch a st"
  by (simp add: run_all_Nil_fun concat_map_single)

lemma run_all_Ahead:
  "run_all (Run (Ahead a) # is) st = (if run_all [Run a] st = [] then [] else run_all is st)"
  by (simp only: run_all_single) simp

lemma run_all_Many_Nil:
  "run_all (Run (Many cs n) # is) (MState p [] cp)
   = (if n = 0 then run_all is (MState p [] cp) else [])"
  by simp

lemma run_all_Many_Cons:
  "run_all (Run (Many cs n) # is) (MState p (c # r) cp)
   = (if in_cset cs c then run_all (Run (Many cs (n - 1)) # is) (MState (Some c) r cp) else [])
     @ (if n = 0 then run_all is (MState p (c # r) cp) else [])"
  by simp

lemma run_all_Few_Nil:
  "run_all (Run (Few cs n) # is) (MState p [] cp)
   = (if n = 0 then run_all is (MState p [] cp) else [])"
  by simp

lemma run_all_Few_Cons:
  "run_all (Run (Few cs n) # is) (MState p (c # r) cp)
   = (if n = 0 then run_all is (MState p (c # r) cp) else [])
     @ (if in_cset cs c then run_all (Run (Few cs (n - 1)) # is) (MState (Some c) r cp) else [])"
  by simp

lemma first_match_run_all: "first_match is st = first_of (run_all is st)"
proof (induction "is" st rule: first_match.induct)
  case (1 st)
  show ?case by (simp add: first_of_Cons first_match.simps)
next
  case (2 n r0 "is" st)
  then show ?case by (simp add: first_match.simps)
next
  case (3 "is" st)
  then show ?case by (simp add: first_match.simps)
next
  case (4 cs "is" st)
  then show ?case by (cases "rest st") (simp_all add: first_of_Nil first_match.simps(4))
next
  case (5 cs n "is" st)
  obtain p s cp where st: "st = MState p s cp" by (cases st)
  show ?case
  proof (cases s)
    case Nil
    have "first_match (Run (Many cs n) # is) (MState p [] cp)
          = (if n = 0 then first_match is (MState p [] cp) else None)"
      by (subst first_match.simps) simp
    moreover have "n = 0 \<Longrightarrow> first_match is (MState p [] cp)
        = first_of (run_all is (MState p [] cp))"
      using 5(1) st Nil by simp
    ultimately show ?thesis
      unfolding st Nil run_all_Many_Nil
      by (auto simp: first_of_Nil)
  next
    case (Cons c r)
    have "first_match (Run (Many cs n) # is) (MState p (c # r) cp)
          = (case (if in_cset cs c
                   then first_match (Run (Many cs (n - 1)) # is) (MState (Some c) r cp)
                   else None) of
               Some m \<Rightarrow> Some m
             | None \<Rightarrow> if n = 0 then first_match is (MState p (c # r) cp) else None)"
      by (subst first_match.simps) simp
    moreover have "in_cset cs c \<Longrightarrow>
        first_match (Run (Many cs (n - 1)) # is) (MState (Some c) r cp)
        = first_of (run_all (Run (Many cs (n - 1)) # is) (MState (Some c) r cp))"
      using 5(2) [of c r] unfolding st Cons by simp
    moreover have "(if in_cset cs c
          then first_match (Run (Many cs (n - 1)) # is) (MState (Some c) r cp)
          else None) = None \<Longrightarrow> n = 0 \<Longrightarrow>
        first_match is (MState p (c # r) cp) = first_of (run_all is (MState p (c # r) cp))"
      using 5(3) [of c r] unfolding st Cons by (cases "in_cset cs c") simp_all
    ultimately show ?thesis
      unfolding st Cons run_all_Many_Cons first_of_append
      by (auto simp: first_of_Nil split: option.splits)
  qed
next
  case (6 cs n "is" st)
  obtain p s cp where st: "st = MState p s cp" by (cases st)
  have unfold: "first_match (Run (Few cs n) # is) (MState p s cp)
     = (case (if n = 0 then first_match is (MState p s cp) else None) of
        Some m \<Rightarrow> Some m
      | None \<Rightarrow>
          (case s of
             [] \<Rightarrow> None
           | c # r \<Rightarrow>
               if in_cset cs c
               then first_match (Run (Few cs (n - 1)) # is) (MState (Some c) r cp)
               else None))"
    by (subst first_match.simps) (simp split: option.splits list.splits)
  have ih0: "n = 0 \<Longrightarrow> first_match is (MState p s cp) = first_of (run_all is (MState p s cp))"
    using 6(1) st by simp
  show ?case
  proof (cases s)
    case Nil
    with ih0 unfold show ?thesis
      unfolding st Nil run_all_Few_Nil
      by (auto simp: first_of_Nil split: option.splits)
  next
    case (Cons c r)
    have "in_cset cs c \<Longrightarrow>
        (if n = 0 then first_match is (MState p (c # r) cp) else None) = None \<Longrightarrow>
        first_match (Run (Few cs (n - 1)) # is) (MState (Some c) r cp)
        = first_of (run_all (Run (Few cs (n - 1)) # is) (MState (Some c) r cp))"
      using 6(2) [of c r] unfolding st Cons by (cases "n = 0") simp_all
    with ih0 unfold show ?thesis
      unfolding st Cons run_all_Few_Cons first_of_append
      by (auto simp: first_of_Nil split: option.splits)
  qed
next
  case (7 a b "is" st)
  then show ?case by (simp only: first_match.simps(7) run_all_Seq)
next
  case (8 a b "is" st)
  then show ?case
    by (simp only: first_match.simps(8) run_all_Alt first_of_append)
       (simp split: option.splits)
next
  case (9 n a "is" st)
  then show ?case by (simp only: first_match.simps(9) run_all_Grp)
next
  case (10 a "is" st)
  then show ?case
    by (simp only: first_match.simps(10) run_all_Ahead)
       (auto simp: first_of_None first_of_Nil split: option.splits)
next
  case (11 "is" st)
  then show ?case by (simp add: first_of_Nil first_match.simps(11))
next
  case (12 "is" st)
  then show ?case by (simp add: first_of_Nil first_match.simps(12))
next
  case (13 "is" st)
  then show ?case by (cases "rest st") (simp_all add: first_of_Nil first_match.simps(13))
next
  case (14 "is" st)
  then show ?case by (simp add: first_of_Nil first_match.simps(14))
next
  case (15 "is" st)
  then show ?case by (simp add: first_of_Nil first_match.simps(15))
qed

lemma search_from_first_Nil:
  "search_from r p [] = first_match [Run r] (MState p [] [])"
  by (simp only: first_match_run_all run_all_single) (simp add: first_of_def)

lemma search_from_first_Cons:
  "search_from r p (c # cs) =
     (case first_match [Run r] (MState p (c # cs) []) of
        None \<Rightarrow> search_from r (Some c) cs
      | Some m \<Rightarrow> Some m)"
  by (simp only: first_match_run_all run_all_single) (simp add: first_of_def split: list.splits)

lemma re_match_first: "re_match r s = first_match [Run r] (MState None s [])"
  by (simp only: first_match_run_all run_all_single) (simp add: re_match_def first_of_def)




section \<open>Evaluating the model on a concrete text\<close>

lemmas rx_defs = accession_rx_def specimen_section_rx_def lettered_specimen_rx_def
  mapping_section_rx_def mapping_specimen_rx_def next_header_or_end_def headed_section_rx_def
  clinical_section_rx_def micro_section_rx_def identifier_token_rx_def micro_row_rx_def
  diagnosis_rx_def valid_identifier_rx_def opt_def

lemmas char_defs = is_space_def is_upper_def is_lower_def is_digit_def caseless_eq_def Let_def
  char_of_def bit_Suc_0_iff

lemmas engine_eval = search_from_first_Nil search_from_first_Cons re_match_first
  first_match.simps re_search_def re_findall_def findall_from.simps group_def close_group_def

lemmas pipeline_defs = strip_def py_chr_def code_points_def py_find_def clamp_index_def py_slice_def
  lettered_specimen_def accession_of_def specimen_section_def
  extract_accession_and_specimens_df_def remove_text_after_newline_def dict_append_def
  specimen_mapping_def initial_impressions_def clean_identifier_def impression_text_def
  clinical_section_def identifier_tokens_def extract_clinical_impression_def
  identifier_column_def loc_assign_def set_diagnosis_def set_microscopic_def set_clinical_def
  micro_section_def micro_desc_matches_def
  add_microscopic_description_def initial_row_def clean_row_def extract_specimen_details_def
  str_nat.simps digit_char_def

declare search_from.simps [simp del]

section \<open>What a match consists of\<close>

declare rmatch.simps [simp del]

lemma many_states_iff:
  "(p', r') \<in> set (many_states cs n p s) \<longleftrightarrow>
   (\<exists>u. s = u @ r' \<and> (\<forall>c\<in>set u. in_cset cs c) \<and> n \<le> length u
        \<and> p' = (if u = [] then p else Some (last u)))"
proof (induction s arbitrary: n p)
  case Nil
  then show ?case by auto
next
  case (Cons c s)
  show ?case
  proof
    assume "(p', r') \<in> set (many_states cs n p (c # s))"
    then consider (go) "in_cset cs c" "(p', r') \<in> set (many_states cs (n - 1) (Some c) s)"
      | (stop) "n = 0" "p' = p" "r' = c # s"
      by (auto split: if_splits)
    then show "\<exists>u. c # s = u @ r' \<and> (\<forall>c\<in>set u. in_cset cs c) \<and> n \<le> length u
        \<and> p' = (if u = [] then p else Some (last u))"
    proof cases
      case go
      then obtain u where "s = u @ r'" "\<forall>c\<in>set u. in_cset cs c" "n - 1 \<le> length u"
        "p' = (if u = [] then Some c else Some (last u))"
        using Cons.IH by blast
      with go(1) show ?thesis
        by (intro exI [of _ "c # u"]) auto
    next
      case stop
      then show ?thesis by (intro exI [of _ "[]"]) auto
    qed
  next
    assume "\<exists>u. c # s = u @ r' \<and> (\<forall>c\<in>set u. in_cset cs c) \<and> n \<le> length u
        \<and> p' = (if u = [] then p else Some (last u))"
    then obtain u where u: "c # s = u @ r'" "\<forall>c\<in>set u. in_cset cs c" "n \<le> length u"
        "p' = (if u = [] then p else Some (last u))" by blast
    show "(p', r') \<in> set (many_states cs n p (c # s))"
    proof (cases u)
      case Nil
      with u show ?thesis by auto
    next
      case (Cons d u')
      with u have "(p', r') \<in> set (many_states cs (n - 1) (Some c) s)"
        using Cons.IH [of "n - 1" "Some c"] by auto
      with u Cons show ?thesis by auto
    qed
  qed
qed

lemma few_states_set: "set (few_states cs n p s) = set (many_states cs n p s)"
  by (induction s arbitrary: n p) auto


lemma in_image_MState:
  "MState p r c \<in> (\<lambda>(p, r). MState p r cp) ` S \<longleftrightarrow> (p, r) \<in> S \<and> c = cp"
  by force

lemma rmatch_Many_iff:
  "st' \<in> set (rmatch (Many cs n) st) \<longleftrightarrow>
   (\<exists>u. rest st = u @ rest st' \<and> (\<forall>c\<in>set u. in_cset cs c) \<and> n \<le> length u
        \<and> before st' = (if u = [] then before st else Some (last u)) \<and> caps st' = caps st)"
proof (cases st')
  case (MState p' r' cp')
  show ?thesis
    unfolding MState rmatch.simps set_map in_image_MState many_states_iff mstate.sel
    by blast
qed

lemma rmatch_Few_iff:
  "st' \<in> set (rmatch (Few cs n) st) \<longleftrightarrow>
   (\<exists>u. rest st = u @ rest st' \<and> (\<forall>c\<in>set u. in_cset cs c) \<and> n \<le> length u
        \<and> before st' = (if u = [] then before st else Some (last u)) \<and> caps st' = caps st)"
proof (cases st')
  case (MState p' r' cp')
  show ?thesis
    unfolding MState rmatch.simps set_map in_image_MState few_states_set many_states_iff mstate.sel
    by blast
qed

lemma rmatch_Atom_iff:
  "st' \<in> set (rmatch (Atom cs) st) \<longleftrightarrow>
   (\<exists>c. rest st = c # rest st' \<and> in_cset cs c \<and> before st' = Some c \<and> caps st' = caps st)"
proof (cases st')
  case (MState p' r' cp')
  show ?thesis
    unfolding MState by (cases "rest st") (auto simp: rmatch.simps)
qed

lemma rmatch_Grp_iff:
  "st' \<in> set (rmatch (Grp n a) st) \<longleftrightarrow>
   (\<exists>m. m \<in> set (rmatch a st) \<and> rest st' = rest m \<and> before st' = before m
        \<and> caps st' = (n, consumed st m) # caps m)"
proof (cases st')
  case (MState p' r' cp')
  show ?thesis
    unfolding MState by (simp add: image_iff rmatch.simps) blast
qed

lemma rmatch_Seq_iff:
  "st' \<in> set (rmatch (Seq a b) st) \<longleftrightarrow> (\<exists>m. m \<in> set (rmatch a st) \<and> st' \<in> set (rmatch b m))"
  by (auto simp: rmatch.simps)

lemma rmatch_Alt_iff:
  "st' \<in> set (rmatch (Alt a b) st) \<longleftrightarrow> st' \<in> set (rmatch a st) \<or> st' \<in> set (rmatch b st)"
  by (simp add: rmatch.simps)

lemma rmatch_Eps_iff: "st' \<in> set (rmatch Eps st) \<longleftrightarrow> st' = st"
  by (auto simp: rmatch.simps)

lemma rmatch_Ahead_iff:
  "st' \<in> set (rmatch (Ahead a) st) \<longleftrightarrow> st' = st \<and> (\<exists>m. m \<in> set (rmatch a st))"
  by (cases "rmatch a st") (auto simp: rmatch.simps)


lemmas rmatch_iffs = rmatch_Many_iff rmatch_Few_iff rmatch_Atom_iff rmatch_Grp_iff rmatch_Seq_iff
  rmatch_Alt_iff rmatch_Eps_iff rmatch_Ahead_iff

lemma consumed_append: "rest st = u @ rest st' \<Longrightarrow> consumed st st' = u"
  by (simp add: consumed_def)

lemma mapping_specimen_group1:
  assumes "m \<in> set (rmatch mapping_specimen_rx st)"
  shows "\<exists>c. is_upper c \<and> group 1 m = [c]"
  using assms
  unfolding mapping_specimen_rx_def opt_def seqs.simps
  apply (simp only: rmatch_iffs)
  apply (auto simp: group_def consumed_def)
  done


lemma rmatch_anchor_iffs:
  "st' \<in> set (rmatch EndZ st) \<longleftrightarrow> st' = st \<and> rest st = []"
  "st' \<in> set (rmatch Dollar st) \<longleftrightarrow> st' = st \<and> (rest st = [] \<or> rest st = [nl])"
  "st' \<in> set (rmatch DollarM st) \<longleftrightarrow> st' = st \<and> (rest st = [] \<or> (\<exists>r. rest st = nl # r))"
  "st' \<in> set (rmatch Caret st) \<longleftrightarrow> st' = st \<and> before st = None"
  "st' \<in> set (rmatch CaretM st) \<longleftrightarrow> st' = st \<and> (before st = None \<or> before st = Some nl)"
  by (auto simp: rmatch.simps split: list.splits)

lemma rmatch_suffix: "m \<in> set (rmatch r st) \<Longrightarrow> \<exists>u. rest st = u @ rest m"
proof (induction r arbitrary: st m)
  case (Seq a b)
  then obtain mid where "mid \<in> set (rmatch a st)" "m \<in> set (rmatch b mid)"
    by (auto simp: rmatch_Seq_iff)
  with Seq.IH obtain u v where "rest st = u @ rest mid" "rest mid = v @ rest m" by blast
  then show ?case by (intro exI [of _ "u @ v"]) simp
next
  case (Grp n a)
  then show ?case by (auto simp: rmatch_Grp_iff)
qed (auto simp: rmatch_iffs rmatch_anchor_iffs)

lemma rmatch_lit_iff:
  "st' \<in> set (rmatch (lit s) st) \<longleftrightarrow>
   rest st = s @ rest st' \<and> caps st' = caps st
   \<and> before st' = (if s = [] then before st else Some (last s))"
proof (induction s arbitrary: st)
  case Nil
  show ?case by (cases st; cases st') (auto simp: rmatch_Eps_iff)
next
  case (Cons c s)
  show ?case
    unfolding lit.simps rmatch_Seq_iff rmatch_Atom_iff Cons.IH
    by (cases st; cases st') (auto intro: exI [of _ "MState (Some c) (s @ rest st') (caps st)"])
qed

lemma seqs_contains_lit:
  "m \<in> set (rmatch (seqs (xs @ lit s # ys)) st) \<Longrightarrow> \<exists>u v. rest st = u @ s @ v"
proof (induction xs arbitrary: st)
  case Nil
  then obtain mid where "mid \<in> set (rmatch (lit s) st)" "m \<in> set (rmatch (seqs ys) mid)"
    by (auto simp: rmatch_Seq_iff)
  then have "rest st = s @ rest mid" by (simp add: rmatch_lit_iff)
  then show ?case by (intro exI [of _ "[]"] exI [of _ "rest mid"]) simp
next
  case (Cons x xs)
  then obtain mid where mid: "mid \<in> set (rmatch x st)"
      "m \<in> set (rmatch (seqs (xs @ lit s # ys)) mid)"
    by (auto simp: rmatch_Seq_iff)
  from rmatch_suffix [OF mid(1)] obtain w where "rest st = w @ rest mid" by blast
  moreover from Cons.IH [OF mid(2)] obtain u v where "rest mid = u @ s @ v" by blast
  ultimately show ?case by (intro exI [of _ "w @ u"] exI [of _ v]) simp
qed

lemma search_from_mem:
  "search_from r p s = Some m \<Longrightarrow>
   \<exists>w p' s'. s = w @ s' \<and> m \<in> set (rmatch r (MState p' s' []))"
proof (induction s arbitrary: p)
  case Nil
  then have "m \<in> set (rmatch r (MState p [] []))"
    by (auto simp: search_from.simps split: list.splits)
  then show ?case by (intro exI [of _ "[]"]) auto
next
  case (Cons c s)
  show ?case
  proof (cases "rmatch r (MState p (c # s) [])")
    case Nil
    with Cons.prems have "search_from r (Some c) s = Some m" by (simp add: search_from.simps)
    from Cons.IH [OF this] obtain w p' s' where "s = w @ s'" "m \<in> set (rmatch r (MState p' s' []))"
      by blast
    then show ?thesis by (intro exI [of _ "c # w"]) auto
  next
    case (Cons m' ms)
    with Cons.prems have "m \<in> set (rmatch r (MState p (c # s) []))"
      by (simp add: search_from.simps)
    then show ?thesis by (intro exI [of _ "[]"]) auto
  qed
qed

lemma search_from_None_findall: "search_from r p s = None \<Longrightarrow> findall_from r p s = []"
  by (subst findall_from.simps) simp

lemma find_from_occurs: "0 \<le> i \<Longrightarrow> find_from sub (u @ sub @ v) i \<noteq> - 1"
proof (induction u arbitrary: i)
  case Nil
  have tk: "take (length sub) (sub @ v) = sub" by simp
  have "find_from sub (sub @ v) i = i"
  proof (cases "sub @ v")
    case Nil
    then show ?thesis by simp
  next
    case (Cons a l)
    with tk show ?thesis by simp
  qed
  with Nil show ?case by simp
next
  case (Cons c u)
  then have "find_from sub (u @ sub @ v) (i + 1) \<noteq> - 1" by simp
  with Cons.prems show ?case by auto
qed

lemma diagnosis_needs_dashes:
  assumes "m \<in> set (rmatch diagnosis_rx st)"
  shows "\<exists>u v. rest st = u @ ''--'' @ v"
proof -
  have "diagnosis_rx = seqs ([Grp 1 (Atom Letter), opt (Atom (OneOf ''.):'')), Many Space 0,
           Grp 2 (Few AnyChar 1), Atom (OneOf [nl]), Many Space 0] @ lit ''--'' #
           [Many Space 0, Grp 3 (Few AnyChar 1),
           Ahead (Alt (seqs [Atom (OneOf [nl]), Atom Letter, Atom (OneOf ''.):'')])
                 (Alt (lit [nl, nl]) Dollar))])"
    unfolding diagnosis_rx_def by simp
  with assms seqs_contains_lit show ?thesis by metis
qed

lemma no_dashes_no_diagnosis: "py_find text ''--'' = - 1 \<Longrightarrow> diagnosis_matches text = []"
proof -
  assume nf: "py_find text ''--'' = - 1"
  have "search_from diagnosis_rx None text = None"
  proof (rule ccontr)
    assume "search_from diagnosis_rx None text \<noteq> None"
    then obtain m where "search_from diagnosis_rx None text = Some m" by auto
    from search_from_mem [OF this] obtain w p' s' where
      "text = w @ s'" "m \<in> set (rmatch diagnosis_rx (MState p' s' []))" by blast
    with diagnosis_needs_dashes obtain u v where "text = (w @ u) @ ''--'' @ v" by fastforce
    with find_from_occurs [of 0 "''--''" "w @ u" v] nf show False
      by (simp add: py_find_def)
  qed
  then show ?thesis
    by (simp add: diagnosis_matches_def re_findall_def search_from_None_findall)
qed


section \<open>The pipeline keeps the specimen list\<close>

subsection \<open>Dictionaries\<close>

lemma dict_set_keys: "fst ` set (dict_set k v d) = insert k (fst ` set d)"
proof (induction d)
  case Nil
  show ?case by simp
next
  case (Cons e d)
  then show ?case by (cases e) (simp add: insert_commute)
qed


lemma dict_append_present:
  "k \<in> fst ` set d \<Longrightarrow> \<exists>d'. dict_append k v d = Inr d' \<and> fst ` set d' = fst ` set d"
proof -
  assume k: "k \<in> fst ` set d"
  then obtain old where "map_of d k = Some old"
    by (metis domD dom_map_of_conv_image_fst)
  with k show ?thesis
    by (auto simp: dict_append_def dict_set_keys)
qed

lemma initial_impressions_keys: "fst ` set (initial_impressions mapping) = snd ` set mapping"
proof -
  have "fst ` set (fold (\<lambda>specimen d. dict_set specimen [] d) xs d) = set xs \<union> fst ` set d"
    for xs d
    by (induction xs arbitrary: d) (auto simp: dict_set_keys)
  then show ?thesis by (simp add: initial_impressions_def)
qed

lemma impression_loop_total:
  "snd ` set mapping \<subseteq> fst ` set impressions \<Longrightarrow>
   \<exists>d. impression_loop mapping body identifiers impressions = Inr d
       \<and> fst ` set d = fst ` set impressions"
proof (induction identifiers arbitrary: impressions)
  case Nil
  then show ?case by simp
next
  case (Cons tok following)
  show ?case
  proof (cases "map_of mapping (clean_identifier tok)")
    case None
    with Cons show ?thesis by simp
  next
    case (Some specimen)
    then have "specimen \<in> snd ` set mapping"
      by (metis map_of_SomeD image_eqI snd_conv)
    with Cons.prems have "specimen \<in> fst ` set impressions" by blast
    from dict_append_present [OF this] obtain d' where
      d': "dict_append specimen (strip (impression_text body tok following) @ '' '')
             impressions = Inr d'" "fst ` set d' = fst ` set impressions"
      by blast
    with Cons.prems Cons.IH [of d'] Some show ?thesis by simp
  qed
qed

lemma extract_clinical_impression_total:
  "\<exists>d. extract_clinical_impression text = Inr d
       \<and> fst ` set d = snd ` set (specimen_mapping text)"
proof (cases "clinical_section text")
  case None
  then show ?thesis
    by (simp add: extract_clinical_impression_def initial_impressions_keys image_image
        case_prod_unfold)
next
  case (Some body)
  show ?thesis
  proof (cases "identifier_tokens body = []")
    case True
    with Some show ?thesis
      by (simp add: extract_clinical_impression_def initial_impressions_keys image_image
          case_prod_unfold)
  next
    case False
    from impression_loop_total [of "specimen_mapping text" "initial_impressions (specimen_mapping text)"
        body "identifier_tokens body"]
    obtain d where "impression_loop (specimen_mapping text) body (identifier_tokens body)
        (initial_impressions (specimen_mapping text)) = Inr d"
      "fst ` set d = snd ` set (specimen_mapping text)"
      by (auto simp: initial_impressions_keys)
    with Some False show ?thesis
      by (simp add: extract_clinical_impression_def image_image case_prod_unfold)
  qed
qed



subsection \<open>Assignments to the data frame\<close>

lemma specimen_of_initial_row: "specimen_of (initial_row s) = s"
  by (simp add: specimen_of_def initial_row_def)

lemma specimen_of_set [simp]:
  "specimen_of (set_diagnosis v r) = specimen_of r"
  "specimen_of (set_microscopic v r) = specimen_of r"
  "specimen_of (set_clinical v r) = specimen_of r"
  "specimen_of (clean_row r) = specimen_of r"
  by (simp_all add: specimen_of_def set_diagnosis_def set_microscopic_def set_clinical_def
      clean_row_def)

lemma identifier_of_set [simp]:
  "specimen_identifier (set_diagnosis v r) = specimen_identifier r"
  "specimen_identifier (set_microscopic v r) = specimen_identifier r"
  "specimen_identifier (set_clinical v r) = specimen_identifier r"
  by (simp_all add: set_diagnosis_def set_microscopic_def set_clinical_def)

lemma fields_of_set [simp]:
  "diagnosis (set_diagnosis v r) = v"
  "diagnosis (set_microscopic v r) = diagnosis r"
  "diagnosis (set_clinical v r) = diagnosis r"
  "microscopic_description (set_diagnosis v r) = microscopic_description r"
  "microscopic_description (set_microscopic v r) = v"
  "microscopic_description (set_clinical v r) = microscopic_description r"
  "clinical_impression (set_diagnosis v r) = clinical_impression r"
  "clinical_impression (set_microscopic v r) = clinical_impression r"
  "clinical_impression (set_clinical v r) = v"
  by (simp_all add: set_diagnosis_def set_microscopic_def set_clinical_def)

lemma fields_of_clean_row [simp]:
  "diagnosis (clean_row r) = remove_text_after_newline (diagnosis r)"
  "microscopic_description (clean_row r) = remove_text_after_newline (microscopic_description r)"
  "clinical_impression (clean_row r) = remove_text_after_newline (clinical_impression r)"
  by (simp_all add: clean_row_def)

lemma loc_assign_eq:
  "loc_assign column specimen_id v rows =
     (if rows = [] then Inl KeyError
      else Inr (map (\<lambda>r. if specimen_identifier r = specimen_id then column v r else r) rows))"
  by (simp add: loc_assign_def identifier_column_def)


lemma assign_each_nth:
  assumes "rows \<noteq> []"
  shows "\<exists>rows'. assign_each column spans rows = Inr rows' \<and> length rows' = length rows
     \<and> (\<forall>i < length rows. rows' ! i =
           fold (\<lambda>(specimen_id, v) r. if specimen_identifier r = specimen_id then column v r else r)
             spans (rows ! i))"
  using assms
proof (induction spans arbitrary: rows)
  case Nil
  then show ?case by simp
next
  case (Cons span spans)
  obtain specimen_id v where span: "span = (specimen_id, v)" by (cases span)
  let ?rows1 = "map (\<lambda>r. if specimen_identifier r = specimen_id then column v r else r) rows"
  from Cons.prems have "?rows1 \<noteq> []" by simp
  from Cons.IH [OF this] obtain rows' where
    "assign_each column spans ?rows1 = Inr rows'" "length rows' = length rows"
    "\<forall>i < length rows. rows' ! i =
       fold (\<lambda>(specimen_id, v) r. if specimen_identifier r = specimen_id then column v r else r)
         spans (?rows1 ! i)"
    by auto
  with Cons.prems span show ?case by (simp add: loc_assign_eq)
qed


lemma assign_each_specimens:
  assumes "\<And>v r. specimen_of (column v r) = specimen_of r"
    and "assign_each column spans rows = Inr rows'"
  shows "map specimen_of rows' = map specimen_of rows"
  using assms(2)
proof (induction spans arbitrary: rows)
  case Nil
  then show ?case by simp
next
  case (Cons span spans)
  obtain specimen_id v where span: "span = (specimen_id, v)" by (cases span)
  from Cons.prems span have ne: "rows \<noteq> []"
    by (auto simp: loc_assign_eq split: if_splits)
  let ?rows1 = "map (\<lambda>r. if specimen_identifier r = specimen_id then column v r else r) rows"
  from Cons.prems span ne have "assign_each column spans ?rows1 = Inr rows'"
    by (simp add: loc_assign_eq)
  from Cons.IH [OF this] have "map specimen_of rows' = map specimen_of ?rows1" .
  also have "\<dots> = map specimen_of rows" by (simp add: assms(1))
  finally show ?case .
qed

lemma add_microscopic_description_specimens:
  "add_microscopic_description text rows = Inr rows' \<Longrightarrow>
   map specimen_of rows' = map specimen_of rows"
  by (auto simp: add_microscopic_description_def Let_def identifier_column_def
      split: option.splits if_splits dest!: assign_each_specimens [rotated])

lemma apply_impressions_specimens:
  "apply_impressions items rows = Inr rows' \<Longrightarrow> map specimen_of rows' = map specimen_of rows"
proof (induction items arbitrary: rows)
  case Nil
  then show ?case by simp
next
  case (Cons item items)
  obtain specimen_id v where item: "item = (specimen_id, v)" by (cases item)
  show ?case
  proof (cases "re_match valid_identifier_rx specimen_id = None")
    case True
    with Cons.prems item have "apply_impressions items (map (set_clinical v) rows) = Inr rows'"
      by simp
    from Cons.IH [OF this] show ?thesis by simp
  next
    case False
    with Cons.prems item have ne: "rows \<noteq> []"
      by (auto simp: loc_assign_eq split: if_splits)
    let ?rows1 = "map (\<lambda>r. if specimen_identifier r = code_points specimen_id then set_clinical v r else r)
        rows"
    from Cons.prems item ne False have "apply_impressions items ?rows1 = Inr rows'"
      by (simp add: loc_assign_eq)
    from Cons.IH [OF this] show ?thesis by simp
  qed
qed

lemma apply_impressions_total:
  "rows \<noteq> [] \<Longrightarrow> \<exists>rows'. apply_impressions items rows = Inr rows'"
proof (induction items arbitrary: rows)
  case Nil
  then show ?case by simp
next
  case (Cons item items)
  obtain specimen_id v where item: "item = (specimen_id, v)" by (cases item)
  from Cons.prems have a: "map (set_clinical v) rows \<noteq> []" by simp
  from Cons.prems have
    b: "map (\<lambda>r. if specimen_identifier r = code_points specimen_id then set_clinical v r else r) rows \<noteq> []"
    by simp
  from Cons.IH [OF a] Cons.IH [OF b] Cons.prems item show ?case
    by (auto simp: loc_assign_eq)
qed

lemma add_microscopic_description_total:
  assumes "rows \<noteq> []"
  shows "\<exists>rows'. add_microscopic_description text rows = Inr rows'"
  using assign_each_nth [OF assms, of set_microscopic] assms
  by (auto simp: add_microscopic_description_def Let_def identifier_column_def
      split: option.splits)

lemma records_follow_specimens:
  assumes "extract_specimen_details text = Inr rows"
  shows "extract_accession_and_specimens_df text = Inr (map specimen_of rows)"
proof -
  from assms obtain specimens rows1 rows2 items rows3 where
    0: "extract_accession_and_specimens_df text = Inr specimens" and
    1: "assign_each set_diagnosis (diagnosis_matches text) (map initial_row specimens)
          = Inr rows1" and
    2: "add_microscopic_description text rows1 = Inr rows2" and
    3: "apply_impressions items rows2 = Inr rows3" and
    4: "rows = map clean_row rows3"
    by (auto simp: extract_specimen_details_def split: sum.splits)
  have "map specimen_of rows = map specimen_of rows3" using 4 by simp
  also have "\<dots> = map specimen_of rows2" by (rule apply_impressions_specimens [OF 3])
  also have "\<dots> = map specimen_of rows1" by (rule add_microscopic_description_specimens [OF 2])
  also have "\<dots> = map specimen_of (map initial_row specimens)"
    by (rule assign_each_specimens [OF _ 1]) simp
  also have "\<dots> = specimens"
    by (simp add: comp_def specimen_of_initial_row)
  finally show ?thesis using 0 by simp
qed

lemma returns_with_specimens:
  assumes "extract_accession_and_specimens_df text = Inr specimens" "specimens \<noteq> []"
  shows "\<exists>rows. extract_specimen_details text = Inr rows"
proof -
  let ?rows0 = "map initial_row specimens"
  from assms have ne0: "?rows0 \<noteq> []" by simp
  from assign_each_nth [OF ne0, of set_diagnosis "diagnosis_matches text"] obtain rows1 where
    1: "assign_each set_diagnosis (diagnosis_matches text) ?rows0 = Inr rows1"
    and "length rows1 = length ?rows0" by blast
  with ne0 have ne1: "rows1 \<noteq> []" by auto
  from add_microscopic_description_total [OF ne1] obtain rows2 where
    2: "add_microscopic_description text rows1 = Inr rows2" by blast
  from add_microscopic_description_specimens [OF 2] ne1 have ne2: "rows2 \<noteq> []" by auto
  from extract_clinical_impression_total obtain items where
    3: "extract_clinical_impression text = Inr items" by blast
  from apply_impressions_total [OF ne2] obtain rows3 where
    4: "apply_impressions items rows2 = Inr rows3" by blast
  from assms(1) 1 2 3 4 show ?thesis
    by (simp add: extract_specimen_details_def)
qed

section \<open>Identifiers and tokens\<close>

lemma findall_from_mem:
  "m \<in> set (findall_from r p s) \<Longrightarrow> \<exists>p' s'. m \<in> set (rmatch r (MState p' s' []))"
proof (induction r p s rule: findall_from.induct)
  case (1 r p s)
  show ?case
  proof (cases "search_from r p s")
    case None
    with 1(3) show ?thesis by (simp add: search_from_None_findall)
  next
    case (Some m0)
    from 1(3) Some consider (first) "m = m0"
      | (shorter) "length (rest m0) < length s" "m \<in> set (findall_from r (before m0) (rest m0))"
      | (skip) c cs where "\<not> length (rest m0) < length s" "s = c # cs"
          "m \<in> set (findall_from r (Some c) cs)"
      by (subst (asm) findall_from.simps) (auto split: if_splits list.splits)
    then show ?thesis
    proof cases
      case first
      with search_from_mem [OF Some] show ?thesis by blast
    next
      case shorter
      with 1(1) [OF Some] show ?thesis by blast
    next
      case skip
      with 1(2) [OF Some] show ?thesis by blast
    qed
  qed
qed

lemma is_upper_not_space: "is_upper c \<Longrightarrow> \<not> is_space c"
  by (auto simp: is_upper_def is_space_def Let_def)

lemma is_lower_not_space: "is_lower c \<Longrightarrow> \<not> is_space c"
  by (auto simp: is_lower_def is_space_def Let_def)

lemma is_lower_not_upper: "is_lower c \<Longrightarrow> \<not> is_upper c"
  by (auto simp: is_lower_def is_upper_def Let_def)

lemma is_lower_not_digit: "is_lower c \<Longrightarrow> \<not> is_digit c"
  by (auto simp: is_lower_def is_digit_def Let_def)

lemma dropWhile_keeps_last:
  "s \<noteq> [] \<Longrightarrow> \<not> P (last s) \<Longrightarrow> dropWhile P s \<noteq> [] \<and> last (dropWhile P s) = last s"
  by (induction s) (auto split: if_splits)

lemma strip_keeps_last:
  assumes "s \<noteq> []" "\<not> is_space (last s)"
  shows "strip s \<noteq> [] \<and> last (strip s) = last s"
proof -
  let ?d = "dropWhile is_space s"
  from dropWhile_keeps_last [of s is_space] assms have ne: "?d \<noteq> []" and lst: "last ?d = last s"
    by simp_all
  from ne lst assms have "\<not> is_space (hd (rev ?d))" by (simp add: hd_rev)
  with ne have "dropWhile is_space (rev ?d) = rev ?d"
    by (cases "rev ?d") auto
  then have "strip s = ?d" by (simp add: strip_def)
  with ne lst show ?thesis by simp
qed

lemma strip_single: "\<not> is_space c \<Longrightarrow> strip [c] = [c]"
  by (simp add: strip_def)

lemma strip_Nil: "strip [] = []"
  by (simp add: strip_def)


lemma digit_char_is_digit: "d < 10 \<Longrightarrow> is_digit (digit_char d)"
  by (simp add: is_digit_def digit_char_def Let_def)

lemma str_nat_digits: "str_nat n \<noteq> [] \<and> (\<forall>c \<in> set (str_nat n). is_digit c)"
proof (induction n rule: str_nat.induct)
  case (1 n)
  show ?case
  proof (cases "n < 10")
    case True
    then have "str_nat n = [digit_char n]" by (subst str_nat.simps) simp
    with True show ?thesis by (simp add: digit_char_is_digit)
  next
    case False
    then have "str_nat n = str_nat (n div 10) @ [digit_char (n mod 10)]"
      by (subst str_nat.simps) simp
    moreover from 1 False have "\<forall>c \<in> set (str_nat (n div 10)). is_digit c" by simp
    ultimately show ?thesis by (auto simp: digit_char_is_digit)
  qed
qed

lemma dict_set_entries: "set (dict_set k v d) \<subseteq> insert (k, v) (set d)"
proof (induction d)
  case Nil
  show ?case by simp
next
  case (Cons e d)
  then show ?case by (cases e) auto
qed

lemma filter_keeps_last:
  "s \<noteq> [] \<Longrightarrow> P (last s) \<Longrightarrow> filter P s \<noteq> [] \<and> last (filter P s) = last s"
  by (induction s) (auto split: if_splits)

lemma add_mapping_entries:
  "(k, v) \<in> set (add_mapping idx ms d) \<Longrightarrow>
   (k, v) \<in> set d \<or> (\<exists>m \<in> set ms. v = strip (group 1 m) \<and> (k = v \<or> (\<exists>i. k = str_nat i)))"
proof (induction ms arbitrary: idx d)
  case Nil
  then show ?case by simp
next
  case (Cons m ms)
  let ?g = "strip (group 1 m)"
  from Cons.prems Cons.IH [of idx' "dict_set ?g ?g (dict_set (str_nat idx) ?g d)" for idx']
  consider "(k, v) \<in> set (dict_set ?g ?g (dict_set (str_nat idx) ?g d))"
    | "\<exists>m \<in> set ms. v = strip (group 1 m) \<and> (k = v \<or> (\<exists>i. k = str_nat i))"
    by auto
  then show ?case
  proof cases
    case 1
    with dict_set_entries [of ?g ?g "dict_set (str_nat idx) ?g d"]
      dict_set_entries [of "str_nat idx" ?g d]
    have "(k, v) = (?g, ?g) \<or> (k, v) = (str_nat idx, ?g) \<or> (k, v) \<in> set d" by auto
    then show ?thesis by auto
  next
    case 2
    then show ?thesis by auto
  qed
qed

lemma specimen_mapping_entries:
  assumes "(k, v) \<in> set (specimen_mapping text)"
  shows "\<exists>c. is_upper c \<and> v = [c] \<and> (k = [c] \<or> (\<exists>i. k = str_nat i))"
proof -
  from assms obtain sec where
    "(k, v) \<in> set (add_mapping 1 (re_findall mapping_specimen_rx (group 1 sec)) [])"
    by (auto simp: specimen_mapping_def split: option.splits)
  from add_mapping_entries [OF this] obtain m where
    m: "m \<in> set (re_findall mapping_specimen_rx (group 1 sec))"
    "v = strip (group 1 m)" "k = v \<or> (\<exists>i. k = str_nat i)" by auto
  from m(1) findall_from_mem obtain p' s' where
    "m \<in> set (rmatch mapping_specimen_rx (MState p' s' []))"
    unfolding re_findall_def by blast
  from mapping_specimen_group1 [OF this] obtain c where "is_upper c" "group 1 m = [c]" by blast
  with m show ?thesis by (auto simp: strip_single is_upper_not_space)
qed

lemma remove_all_keeps_last:
  "s \<noteq> [] \<Longrightarrow> old \<noteq> [] \<Longrightarrow> last s \<noteq> last old \<Longrightarrow>
   remove_all old s \<noteq> [] \<and> last (remove_all old s) = last s"
proof (induction old s rule: remove_all.induct)
  case (1 old)
  then show ?case by simp
next
  case (2 old c cs)
  show ?case
  proof (cases "take (length old) (c # cs) = old")
    case True
    let ?r = "drop (length old - 1) cs"
    from True have split: "c # cs = old @ ?r"
      by (metis "2.prems"(2) One_nat_def append_take_drop_id drop_Cons' length_0_conv)
    with "2.prems" have ne: "?r \<noteq> []" by (metis append_Nil2)
    with split have lst: "last ?r = last (c # cs)" by (metis last_appendR)
    from "2.IH"(1) True "2.prems" ne lst show ?thesis by simp
  next
    case False
    show ?thesis
    proof (cases cs)
      case Nil
      with False show ?thesis by simp
    next
      case (Cons d ds)
      with "2.IH"(2) False "2.prems" show ?thesis by simp
    qed
  qed
qed

lemma clean_identifier_keeps_last:
  assumes "tok \<noteq> []" "is_lower (last tok)"
  shows "clean_identifier tok \<noteq> [] \<and> last (clean_identifier tok) = last tok"
proof -
  let ?f = "filter (\<lambda>c. c \<notin> set '')-:#'') tok"
  from assms(2) have keep: "last tok \<notin> set '')-:#''"
    by (auto simp: is_lower_def Let_def)
  with assms(1) filter_keeps_last [of tok "\<lambda>c. c \<notin> set '')-:#''"]
  have f: "?f \<noteq> []" "last ?f = last tok"
    by simp_all
  from assms(2) have "last tok \<noteq> CHR '' ''" by (auto simp: is_lower_def Let_def)
  with f have r: "remove_all ''Lesion '' ?f \<noteq> []" "last (remove_all ''Lesion '' ?f) = last tok"
    using remove_all_keeps_last [of ?f "''Lesion ''"] by simp_all
  with assms(2) strip_keeps_last [of "remove_all ''Lesion '' ?f"] show ?thesis
    by (simp add: clean_identifier_def is_lower_not_space)
qed

lemma lowercase_clean_unmapped:
  assumes "c \<noteq> []" "is_lower (last c)"
  shows "map_of (specimen_mapping text) c = None"
proof (rule ccontr)
  assume "map_of (specimen_mapping text) c \<noteq> None"
  then obtain v where "(c, v) \<in> set (specimen_mapping text)"
    by (auto dest: map_of_SomeD)
  from specimen_mapping_entries [OF this] obtain u where
    u: "is_upper u" and "c = [u] \<or> (\<exists>i. c = str_nat i)" by blast
  from this(2) show False
  proof
    assume "c = [u]"
    with assms u show False by (simp add: is_lower_not_upper)
  next
    assume "\<exists>i. c = str_nat i"
    then obtain i where "c = str_nat i" by blast
    with str_nat_digits [of i] have "is_digit (last c)" by (simp add: last_in_set)
    with assms show False by (simp add: is_lower_not_digit)
  qed
qed

lemma single_letter_not_valid: "re_match valid_identifier_rx [c] = None"
proof -
  have "rmatch valid_identifier_rx (MState None [c] []) = []"
    by (auto simp: valid_identifier_rx_def rmatch.simps is_digit_def Let_def)
  then show ?thesis by (simp add: re_match_def)
qed



lemma rmatch_lit_i:
  "m \<in> set (rmatch (lit_i s) st) \<Longrightarrow>
   \<exists>l. length l = length s \<and> rest st = l @ rest m \<and> caps m = caps st"
proof (induction s arbitrary: st)
  case Nil
  then show ?case by (simp add: rmatch_Eps_iff)
next
  case (Cons c s)
  then obtain mid x where mid: "rest st = x # rest mid" "caps mid = caps st"
      "m \<in> set (rmatch (lit_i s) mid)"
    by (auto simp only: lit_i.simps rmatch_Seq_iff rmatch_Atom_iff)
  from Cons.IH [OF mid(3)] obtain l where
    "length l = length s" "rest mid = l @ rest m" "caps m = caps mid" by blast
  with mid show ?case by (intro exI [of _ "x # l"]) simp
qed

lemma identifier_token_shape:
  assumes "m \<in> set (rmatch identifier_token_rx st)"
  shows "(\<exists>c p. group 1 m = [c, p] \<and> (p = CHR '')'' \<or> p = CHR '':''))
       \<or> (\<exists>ds. ds \<noteq> [] \<and> group 1 m = CHR ''#'' # ds @ ''-'')
       \<or> (\<exists>l c. length l = 7 \<and> group 1 m = l @ [c])"
proof -
  from assms obtain e where e: "rest m = rest e" "caps m = (1, consumed st e) # caps e" and
    alts: "e \<in> set (rmatch (Seq (Atom Letter) (Atom (OneOf '')''))) st)
      \<or> e \<in> set (rmatch (Seq (Atom Letter) (Atom (OneOf '':''))) st)
      \<or> e \<in> set (rmatch (seqs [Atom (OneOf ''#''), Many Digit 1, Atom (OneOf ''-'')]) st)
      \<or> e \<in> set (rmatch (Seq (lit_i ''Lesion '') (Atom Letter)) st)"
    unfolding identifier_token_rx_def by (auto simp only: rmatch_Grp_iff rmatch_Alt_iff)
  from e have g: "group 1 m = consumed st e" by (simp add: group_def)
  from alts show ?thesis
  proof (elim disjE)
    assume "e \<in> set (rmatch (Seq (Atom Letter) (Atom (OneOf '')''))) st)"
    then have "\<exists>c. rest st = [c, CHR '')''] @ rest e"
      by (auto simp only: rmatch_iffs) auto
    with g show ?thesis by (auto simp: consumed_def)
  next
    assume "e \<in> set (rmatch (Seq (Atom Letter) (Atom (OneOf '':''))) st)"
    then have "\<exists>c. rest st = [c, CHR '':''] @ rest e"
      by (auto simp only: rmatch_iffs) auto
    with g show ?thesis by (auto simp: consumed_def)
  next
    assume "e \<in> set (rmatch (seqs [Atom (OneOf ''#''), Many Digit 1, Atom (OneOf ''-'')]) st)"
    then have "\<exists>ds. ds \<noteq> [] \<and> rest st = (CHR ''#'' # ds @ ''-'') @ rest e"
      unfolding seqs.simps by (auto simp only: rmatch_iffs) auto
    with g show ?thesis by (auto simp: consumed_def)
  next
    assume "e \<in> set (rmatch (Seq (lit_i ''Lesion '') (Atom Letter)) st)"
    then obtain mid c where "mid \<in> set (rmatch (lit_i ''Lesion '') st)"
        "rest mid = c # rest e"
      by (auto simp only: rmatch_Seq_iff rmatch_Atom_iff)
    with rmatch_lit_i [of mid "''Lesion ''" st]
    have "\<exists>l c. length l = 7 \<and> rest st = (l @ [c]) @ rest e" by auto
    with g show ?thesis by (auto simp: consumed_def)
  qed
qed


lemma lowercase_token_unmapped:
  assumes "tok \<in> set (identifier_tokens body)" "is_lower (token_letter tok)"
  shows "map_of (specimen_mapping text) (clean_identifier tok) = None"
proof -
  from assms(1) obtain m where "m \<in> set (re_findall identifier_token_rx body)"
      and tok: "tok = group 1 m"
    by (auto simp: identifier_tokens_def)
  with findall_from_mem obtain p' s' where
    "m \<in> set (rmatch identifier_token_rx (MState p' s' []))"
    unfolding re_findall_def by blast
  from identifier_token_shape [OF this] tok
  consider (two) c p where "tok = [c, p]" "p = CHR '')'' \<or> p = CHR '':''"
    | (number) ds where "ds \<noteq> []" "tok = CHR ''#'' # ds @ ''-''"
    | (lesion) l c where "length l = 7" "tok = l @ [c]"
    by blast
  then show ?thesis
  proof cases
    case two
    with assms(2) have low: "is_lower c" by (simp add: token_letter_def)
    with two have "clean_identifier tok = [c]"
      by (auto simp: clean_identifier_def strip_single is_lower_not_space is_lower_def Let_def)
    with low show ?thesis by (simp add: lowercase_clean_unmapped)
  next
    case number
    then have "token_letter tok = CHR ''-''" by (simp add: token_letter_def)
    with assms(2) show ?thesis by (simp add: is_lower_def)
  next
    case lesion
    with assms(2) have "tok \<noteq> []" "is_lower (last tok)" by (simp_all add: token_letter_def)
    from clean_identifier_keeps_last [OF this] this(2) show ?thesis
      by (simp add: lowercase_clean_unmapped)
  qed
qed

lemma impression_loop_unmapped:
  "\<forall>tok \<in> set toks. map_of mapping (clean_identifier tok) = None \<Longrightarrow>
   impression_loop mapping body toks impressions = Inr impressions"
  by (induction toks) simp_all

lemma initial_impressions_values: "(k, v) \<in> set (initial_impressions mapping) \<Longrightarrow> v = []"
proof -
  have "(k, v) \<in> set (fold (\<lambda>specimen d. dict_set specimen [] d) xs d) \<Longrightarrow>
        (k, v) \<in> set d \<or> v = []" for xs d
  proof (induction xs arbitrary: d)
    case Nil
    then show ?case by simp
  next
    case (Cons x xs)
    from Cons.IH [OF Cons.prems [simplified]] dict_set_entries [of x "[]" d]
    show ?case by auto
  qed
  then show "(k, v) \<in> set (initial_impressions mapping) \<Longrightarrow> v = []"
    unfolding initial_impressions_def by fastforce
qed

lemma assign_each_frame:
  assumes "\<And>v r. f (column v r) = f r"
    and "assign_each column spans rows = Inr rows'"
  shows "map f rows' = map f rows"
  using assms(2)
proof (induction spans arbitrary: rows)
  case Nil
  then show ?case by simp
next
  case (Cons span spans)
  obtain specimen_id v where span: "span = (specimen_id, v)" by (cases span)
  from Cons.prems span have ne: "rows \<noteq> []"
    by (auto simp: loc_assign_eq split: if_splits)
  let ?rows1 = "map (\<lambda>r. if specimen_identifier r = specimen_id then column v r else r) rows"
  from Cons.prems span ne have "assign_each column spans ?rows1 = Inr rows'"
    by (simp add: loc_assign_eq)
  from Cons.IH [OF this] have "map f rows' = map f ?rows1" .
  also have "\<dots> = map f rows" by (simp add: assms(1))
  finally show ?case .
qed

lemma add_microscopic_description_frame:
  assumes "\<And>v r. f (set_microscopic v r) = f r"
    and "add_microscopic_description text rows = Inr rows'"
  shows "map f rows' = map f rows"
  using assms(2) assign_each_frame [of f set_microscopic, OF assms(1)]
  by (auto simp: add_microscopic_description_def Let_def identifier_column_def
      split: option.splits if_splits)

lemma apply_impressions_all_empty:
  assumes "\<forall>(k, v) \<in> set items. v = []" "\<forall>r \<in> set rows. clinical_impression r = []"
    and "apply_impressions items rows = Inr rows'"
  shows "\<forall>r \<in> set rows'. clinical_impression r = []"
  using assms
proof (induction items arbitrary: rows)
  case Nil
  then show ?case by simp
next
  case (Cons item items)
  from Cons.prems(1) obtain specimen_id where item: "item = (specimen_id, [])"
    by (cases item) auto
  from Cons.prems(1) have rest: "\<forall>(k, v) \<in> set items. v = []" by simp
  let ?all = "map (set_clinical []) rows"
  let ?some = "map (\<lambda>r. if specimen_identifier r = code_points specimen_id then set_clinical [] r else r)
      rows"
  from Cons.prems(2) have empty: "\<forall>r \<in> set ?all. clinical_impression r = []"
      "\<forall>r \<in> set ?some. clinical_impression r = []"
    by auto
  show ?case
  proof (cases "re_match valid_identifier_rx specimen_id = None")
    case True
    with Cons.prems(3) item have "apply_impressions items ?all = Inr rows'"
      by simp
    from Cons.IH [OF rest empty(1) this] show ?thesis .
  next
    case False
    with Cons.prems(3) item have "apply_impressions items ?some = Inr rows'"
      by (auto simp: loc_assign_eq split: if_splits)
    from Cons.IH [OF rest empty(2) this] show ?thesis .
  qed
qed

lemma clinical_before_impressions:
  assumes "assign_each set_diagnosis spans (map initial_row specimens) = Inr rows1"
    "add_microscopic_description text rows1 = Inr rows2"
  shows "\<forall>r \<in> set rows2. clinical_impression r = []"
proof -
  have "map clinical_impression rows2 = map clinical_impression rows1"
    by (rule add_microscopic_description_frame [OF _ assms(2)]) simp
  also have "\<dots> = map clinical_impression (map initial_row specimens)"
    by (rule assign_each_frame [OF _ assms(1)]) simp
  finally have "set (map clinical_impression rows2) \<subseteq> {[]}"
    by (auto simp: initial_row_def)
  then show ?thesis by auto
qed

lemma remove_text_after_newline_Nil: "remove_text_after_newline [] = []"
  by (simp add: remove_text_after_newline_def strip_def)

section \<open>The value of each narrative field\<close>

lemma identifier_of_clean_row [simp]:
  "specimen_identifier (clean_row r) = specimen_identifier r"
  by (simp add: clean_row_def)




text \<open>The stages of the pipeline, named.\<close>

lemma pipeline_stages:
  assumes "extract_specimen_details text = Inr rows"
  obtains specimens rows1 rows2 items rows3 where
    "extract_accession_and_specimens_df text = Inr specimens"
    "assign_each set_diagnosis (diagnosis_matches text) (map initial_row specimens) = Inr rows1"
    "add_microscopic_description text rows1 = Inr rows2"
    "extract_clinical_impression text = Inr items"
    "apply_impressions items rows2 = Inr rows3"
    "rows = map clean_row rows3"
  using assms
  by (auto simp: extract_specimen_details_def split: sum.splits)






lemma set_clinical_twice: "set_clinical a (set_clinical b r) = set_clinical a r"
  by (simp add: set_clinical_def)

lemma apply_impressions_broadcast:
  assumes "\<forall>(k, v) \<in> set items. re_match valid_identifier_rx k = None"
  shows "apply_impressions items rows =
     Inr (if items = [] then rows else map (set_clinical (snd (last items))) rows)"
  using assms
proof (induction items arbitrary: rows)
  case Nil
  show ?case by simp
next
  case (Cons item items)
  obtain k v where item: "item = (k, v)" by (cases item)
  with Cons.prems have "re_match valid_identifier_rx k = None"
    and "\<forall>(k, v) \<in> set items. re_match valid_identifier_rx k = None" by simp_all
  with Cons.IH [of "map (set_clinical v) rows"] item show ?case
    by (simp add: set_clinical_twice comp_def)
qed

lemma impression_keys_not_valid:
  assumes "extract_clinical_impression text = Inr items"
  shows "\<forall>(k, v) \<in> set items. re_match valid_identifier_rx k = None"
proof -
  from extract_clinical_impression_total [of "text"] assms
  have keys: "fst ` set items = snd ` set (specimen_mapping text)" by simp
  show ?thesis
  proof (clarify)
    fix k v
    assume "(k, v) \<in> set items"
    then have "k \<in> fst ` set items" by force
    with keys obtain k' where "(k', k) \<in> set (specimen_mapping text)" by auto
    from specimen_mapping_entries [OF this] obtain c where "k = [c]" by blast
    then show "re_match valid_identifier_rx k = None" by (simp add: single_letter_not_valid)
  qed
qed

lemma clinical_of_row:
  assumes "extract_specimen_details text = Inr rows" "i < length rows"
    and "extract_clinical_impression text = Inr items"
  shows "clinical_impression (rows ! i) =
     remove_text_after_newline (if items = [] then [] else snd (last items))"
proof -
  from assms(1,3) obtain specimens rows1 rows2 rows3 where
    1: "assign_each set_diagnosis (diagnosis_matches text) (map initial_row specimens) = Inr rows1" and
    2: "add_microscopic_description text rows1 = Inr rows2" and
    4: "apply_impressions items rows2 = Inr rows3" and
    5: "rows = map clean_row rows3"
    by (auto elim!: pipeline_stages)
  from 4 apply_impressions_broadcast [OF impression_keys_not_valid [OF assms(3)], of rows2]
  have 3: "rows3 = (if items = [] then rows2 else map (set_clinical (snd (last items))) rows2)"
    by simp
  with 5 assms(2) have len: "i < length rows2" by (auto split: if_splits)
  from clinical_before_impressions [OF 1 2] len have "clinical_impression (rows2 ! i) = []"
    by simp
  with 3 5 len show ?thesis by (auto split: if_splits)
qed

section \<open>More on dictionaries and stripping\<close>












section \<open>The example reports, evaluated\<close>

lemma scenario4_diagnosis: "diagnosis_matches scenario4 = []"
  by (rule no_dashes_no_diagnosis) (simp add: py_find_def scenario4_def)

lemma scenario4_impressions:
  "extract_clinical_impression scenario4 = Inr [(''A'', ''Benign.''), (''B'', ''Malignant.'')]"
  unfolding scenario4_def by (simp add: rx_defs char_defs engine_eval pipeline_defs)

lemma scenario4_specimens:
  "map_sum id (map specimen_identifier) (extract_accession_and_specimens_df scenario4)
   = Inr [code_points ''A'', code_points ''B'']"
  unfolding scenario4_def by (simp add: rx_defs char_defs engine_eval pipeline_defs)





















section \<open>The claims\<close>

text \<open>
  Claim C1: for every input string the pipeline \<open>extract_specimen_details\<close> returns a
  record list without raising, in particular when the SPECIMEN SUBMITTED section is absent
  while the text still has a microscopic description. The code does not: with no specimen
  the data frame has no \<open>Specimen Identifier\<close> column, and the broadcast of the microscopic
  description reads that column and raises \<open>KeyError\<close>.
\<close>

theorem microscopic_without_specimens_raises:
  "extract_specimen_details ''MICROSCOPIC DESCRIPTION: benign nevus'' = Inl KeyError"
proof -
  have "diagnosis_matches ''MICROSCOPIC DESCRIPTION: benign nevus'' = []"
    by (rule no_dashes_no_diagnosis) (simp add: py_find_def)
  then show ?thesis
    by (simp add: rx_defs char_defs engine_eval pipeline_defs)
qed

text \<open>
  Claim C10: token detection in the clinical impression section ignores case, so a section
  whose only tokens have a lowercase letter (such as \<open>a)\<close>) counts as identifier-tagged and
  gets no broadcast, while no such token resolves to a specimen: the keys of the mapping are
  capital letters and decimal numbers. Every record's clinical impression is then empty.
\<close>

theorem lowercase_tokens_leave_impression_empty:
  assumes "clinical_section text = Some body"
    and "identifier_tokens body \<noteq> []"
    and "\<forall>tok \<in> set (identifier_tokens body). is_lower (token_letter tok)"
  shows "(\<forall>tok \<in> set (identifier_tokens body).
            map_of (specimen_mapping text) (clean_identifier tok) = None)
       \<and> (\<forall>rows. extract_specimen_details text = Inr rows \<longrightarrow>
            (\<forall>r \<in> set rows. clinical_impression r = []))
       \<and> (\<forall>specimens. extract_accession_and_specimens_df text = Inr specimens
              \<and> specimens \<noteq> [] \<longrightarrow>
            (\<exists>rows. extract_specimen_details text = Inr rows))"
proof (intro conjI allI impI)
  show un: "\<forall>tok \<in> set (identifier_tokens body).
      map_of (specimen_mapping text) (clean_identifier tok) = None"
    using assms(3) by (auto intro: lowercase_token_unmapped)
  show "\<exists>rows. extract_specimen_details text = Inr rows"
    if "extract_accession_and_specimens_df text = Inr specimens \<and> specimens \<noteq> []"
    for specimens
    using that by (auto intro: returns_with_specimens)
  fix rows
  assume run: "extract_specimen_details text = Inr rows"
  from run obtain specimens rows1 rows2 items rows3 where
    1: "assign_each set_diagnosis (diagnosis_matches text) (map initial_row specimens) = Inr rows1" and
    2: "add_microscopic_description text rows1 = Inr rows2" and
    3: "extract_clinical_impression text = Inr items" and
    4: "apply_impressions items rows2 = Inr rows3" and
    5: "rows = map clean_row rows3"
    by (auto simp: extract_specimen_details_def split: sum.splits)
  from 3 assms(1,2) impression_loop_unmapped [OF un]
  have "items = map (\<lambda>(k, v). (k, strip v)) (initial_impressions (specimen_mapping text))"
    by (simp add: extract_clinical_impression_def)
  then have "\<forall>(k, v) \<in> set items. v = []"
    by (auto simp: strip_Nil dest: initial_impressions_values)
  from apply_impressions_all_empty [OF this clinical_before_impressions [OF 1 2] 4] 5
  show "\<forall>r \<in> set rows. clinical_impression r = []"
    by (simp add: remove_text_after_newline_Nil)
qed

theorem lowercase_tokens_leave_impression_empty_witness:
  "clinical_section ''SPECIMEN SUBMITTED: A. x\<newline>\<newline>CLINICAL IMPRESSION: a) y'' = Some ''a) y''
   \<and> identifier_tokens ''a) y'' = [''a)'']
   \<and> is_lower (token_letter ''a)'')
   \<and> map_sum id (map specimen_identifier) (extract_accession_and_specimens_df
         ''SPECIMEN SUBMITTED: A. x\<newline>\<newline>CLINICAL IMPRESSION: a) y'')
       = Inr [code_points ''A'']
   \<and> (\<exists>rows. extract_specimen_details
          ''SPECIMEN SUBMITTED: A. x\<newline>\<newline>CLINICAL IMPRESSION: a) y'' = Inr rows
        \<and> (\<forall>r \<in> set rows. clinical_impression r = []))"
proof -
  let ?text = "''SPECIMEN SUBMITTED: A. x\<newline>\<newline>CLINICAL IMPRESSION: a) y''"
  have sec: "clinical_section ?text = Some ''a) y''"
    by (simp add: rx_defs char_defs engine_eval pipeline_defs)
  have toks: "identifier_tokens ''a) y'' = [''a)'']"
    by (simp add: rx_defs char_defs engine_eval pipeline_defs)
  have low: "is_lower (token_letter ''a)'')"
    by (simp add: token_letter_def is_lower_def)
  have specimens: "\<exists>specimens. extract_accession_and_specimens_df ?text = Inr specimens
      \<and> map specimen_identifier specimens = [code_points ''A'']"
    by (simp add: rx_defs char_defs engine_eval pipeline_defs)
  then obtain specimens where "extract_accession_and_specimens_df ?text = Inr specimens"
      "specimens \<noteq> []" "map specimen_identifier specimens = [code_points ''A'']"
    by auto
  with lowercase_tokens_leave_impression_empty [of ?text "''a) y''"] sec toks low
  show ?thesis by auto
qed

text \<open>
  Claim C5: for every input text the output holds exactly one record per specimen extracted
  from SPECIMEN SUBMITTED, in the same order, and a span whose identifier resolves to no
  extracted specimen is silently discarded. With at least one row, a diagnosis span whose
  identifier matches no row is dropped by an assignment under an all-false mask. With no
  specimen the same span is not discarded: the assignment reads the \<open>Specimen Identifier\<close>
  column, which the empty data frame does not have, and raises \<open>KeyError\<close>, so that no record
  list is produced at all.
\<close>

theorem diagnosis_without_specimens_raises:
  "extract_accession_and_specimens_df ''A. arm\<newline>-- BCC'' = Inr []
   \<and> diagnosis_matches ''A. arm\<newline>-- BCC'' = [(code_points ''A'', ''BCC'')]
   \<and> extract_specimen_details ''A. arm\<newline>-- BCC'' = Inl KeyError"
  by (simp add: rx_defs char_defs engine_eval pipeline_defs diagnosis_matches_def)

text \<open>
  Claim C2: each tagged span of the clinical impression is written only into the record
  that its token resolves to; for scenario 4 record A gets \<open>Benign.\<close> and record B gets
  \<open>Malignant.\<close>. \<open>extract_clinical_impression\<close> does attribute the two texts to A and B,
  but \<open>extract_specimen_details\<close> then tests each key against a pattern that no single
  letter matches, takes the branch that fills every row, and leaves both records with the
  text of the last key.
\<close>

theorem scenario4_impressions_overwritten:
  "extract_clinical_impression scenario4 = Inr [(''A'', ''Benign.''), (''B'', ''Malignant.'')]
   \<and> map_sum id (map specimen_identifier) (extract_specimen_details scenario4)
       = Inr [code_points ''A'', code_points ''B'']
   \<and> map_sum id (map clinical_impression) (extract_specimen_details scenario4)
       = Inr [''Malignant.'', ''Malignant.'']"
proof -
  from scenario4_specimens obtain specimens where
    sp: "extract_accession_and_specimens_df scenario4 = Inr specimens"
    and ids0: "map specimen_identifier specimens = [code_points ''A'', code_points ''B'']"
    by (cases "extract_accession_and_specimens_df scenario4") auto
  from ids0 have "specimens \<noteq> []" by auto
  from returns_with_specimens [OF sp this] obtain rows where
    rows: "extract_specimen_details scenario4 = Inr rows" by blast
  from records_follow_specimens [OF rows] sp have "specimens = map specimen_of rows" by simp
  with ids0 have ids: "map specimen_identifier rows = [code_points ''A'', code_points ''B'']"
    by (simp add: comp_def specimen_of_def)
  then obtain ra rb where two: "rows = [ra, rb]"
    and "specimen_identifier ra = code_points ''A''" "specimen_identifier rb = code_points ''B''"
    by (auto simp: map_eq_Cons_conv)
  have last: "remove_text_after_newline ''Malignant.'' = ''Malignant.''"
    by (simp add: remove_text_after_newline_def strip_def char_defs)
  from clinical_of_row [OF rows _ scenario4_impressions, of 0] two last
  have "clinical_impression ra = ''Malignant.''" by simp
  moreover from clinical_of_row [OF rows _ scenario4_impressions, of 1] two last
  have "clinical_impression rb = ''Malignant.''" by simp
  ultimately show ?thesis
    using rows two \<open>specimen_identifier ra = _\<close> \<open>specimen_identifier rb = _\<close> scenario4_impressions
    by simp
qed














lemma inline_letter_section: "specimen_section inline_letter = Some ''skin A. left''"
  unfolding inline_letter_def by (simp add: rx_defs char_defs engine_eval pipeline_defs)

lemma inline_letter_lines:
  "letter_prefixed_lines ''skin A. left'' = []"
  by (simp_all add: letter_prefixed_lines_def letter_prefixed_def char_defs)

lemma inline_letter_specimens:
  "extract_accession_and_specimens_df inline_letter
   = Inr [\<lparr>accession_no = None, specimen_identifier = [65], specimen_description = ''left''\<rparr>]"
  unfolding inline_letter_def by (simp add: rx_defs char_defs engine_eval pipeline_defs)

lemma bare_letter_section: "specimen_section bare_letter = Some ''A.''"
  unfolding bare_letter_def by (simp add: rx_defs char_defs engine_eval pipeline_defs)

lemma bare_letter_lines:
  "letter_prefixed_lines ''A.'' = [''A.'']"
  by (simp_all add: letter_prefixed_lines_def letter_prefixed_def char_defs)

lemma bare_letter_specimens:
  "extract_accession_and_specimens_df bare_letter
   = Inr [\<lparr>accession_no = None, specimen_identifier = [65], specimen_description = ''A.''\<rparr>]"
  unfolding bare_letter_def by (simp add: rx_defs char_defs engine_eval pipeline_defs)





end
